theory Spec2Isabelle
  imports Complex_Main "HOL-Library.Word" "HOL-Library.Multiset"
begin

section \<open>EchoSignRealtime: the sentence predictor\<close>

text \<open>
  A shallow embedding of \<^verbatim>\<open>src/sentence_predictor.h\<close> and of the parts of
  \<^verbatim>\<open>src/main.cpp\<close> that drive it.

  Conventions of the embedding:
  \<^item> \<^verbatim>\<open>uint8_t\<close> is \<open>8 word\<close> and \<^verbatim>\<open>uint32_t\<close> is \<open>32 word\<close>, so that
    \<^verbatim>\<open>bufferIndex++\<close>, \<^verbatim>\<open>votes[..]++\<close> and \<^verbatim>\<open>now - lastSampleTime\<close> wrap around as
    they do in C++;
  \<^item> \<^verbatim>\<open>float\<close> is IEEE 754 single precision: a finite value is the real number it
    denotes, every arithmetic operation rounds its exact result to the nearest value of
    the format (ties to even), and a result that is not finite (infinity or NaN) is
    \<open>None\<close>; values that are only stored, compared or copied are plain reals;
  \<^item> every call of \<^verbatim>\<open>millis()\<close> is an explicit argument of the function that makes it;
  \<^item> a C array is a list; a member function takes the object and returns the updated
    object (together with its result, when it has one).
\<close>

type_synonym u8 = "8 word"
type_synonym u32 = "32 word"

subsection \<open>Configuration (sentence\_predictor.h, lines 14-17)\<close>

definition SENTENCE_WINDOW_DURATION_MS :: u32 where
  "SENTENCE_WINDOW_DURATION_MS = 4000"

definition SENTENCE_SAMPLE_RATE_HZ :: nat where
  "SENTENCE_SAMPLE_RATE_HZ = 20"

definition SENTENCE_SAMPLES_PER_WINDOW :: nat where
  "SENTENCE_SAMPLES_PER_WINDOW = 80"

definition SENTENCE_SAMPLE_INTERVAL_MS :: u32 where
  "SENTENCE_SAMPLE_INTERVAL_MS = of_nat (1000 div SENTENCE_SAMPLE_RATE_HZ)"

subsection \<open>Single-precision arithmetic\<close>

text \<open>
  Rounding of a real to the nearest integer, a tie going to the even neighbour.
\<close>

definition rne :: "real \<Rightarrow> int" where
  "rne y = (let f = \<lfloor>y\<rfloor>; r = y - of_int f in
              if r < 1 / 2 then f else if 1 / 2 < r then f + 1
              else if even f then f else f + 1)"

text \<open>
  The binary exponent of a real that is not 0, and the exponent of the spacing of the
  single-precision values around it: 24 significant bits, and no spacing finer than
  \<open>2 powi (- 149)\<close>, that of the subnormal values.
\<close>

definition expo :: "real \<Rightarrow> int" where
  "expo x = \<lfloor>log 2 \<bar>x\<bar>\<rfloor>"

definition qexp :: "real \<Rightarrow> int" where
  "qexp x = max (expo x - 23) (- 149)"

text \<open>
  The value of the format nearest to \<open>x\<close> when the exponent is not bounded above, and
  the rounding of the format itself: a result of magnitude \<open>2 powi 128\<close> or more
  overflows to an infinity and is not a finite value.
\<close>

definition flv :: "real \<Rightarrow> real" where
  "flv x = (if x = 0 then 0 else of_int (rne (x / 2 powi qexp x)) * 2 powi qexp x)"

definition fl :: "real \<Rightarrow> real option" where
  "fl x = (if \<bar>flv x\<bar> < 2 powi 128 then Some (flv x) else None)"

text \<open>The largest finite value, \<open>(2 ^ 24 - 1) * 2 ^ 104\<close>.\<close>

definition FLT_MAX :: real where
  "FLT_MAX = 340282346638528859811704183484516925440"

text \<open>
  The operations on finite values. Division by zero gives an infinity or NaN, the square
  root of a negative value NaN.
\<close>

definition fadd :: "real \<Rightarrow> real \<Rightarrow> real option" where
  "fadd a b = fl (a + b)"

definition fsub :: "real \<Rightarrow> real \<Rightarrow> real option" where
  "fsub a b = fl (a - b)"

definition fmul :: "real \<Rightarrow> real \<Rightarrow> real option" where
  "fmul a b = fl (a * b)"

definition fdiv :: "real \<Rightarrow> real \<Rightarrow> real option" where
  "fdiv a b = (if b = 0 then None else fl (a / b))"

definition fsqrt :: "real \<Rightarrow> real option" where
  "fsqrt a = (if a < 0 then None else fl (sqrt a))"

subsection \<open>Data\<close>

record SensorSample =
  f1 :: real
  f2 :: real
  f3 :: real
  f4 :: real
  f5 :: real
  gdp :: real
  ax :: real
  ay :: real
  az :: real
  gx :: real
  gy :: real
  gz :: real

text \<open>The sample whose twelve floats are all-zero bytes, as \<^verbatim>\<open>memset(.., 0, ..)\<close> leaves it.\<close>

definition zero_sample :: SensorSample where
  "zero_sample = \<lparr>f1 = 0, f2 = 0, f3 = 0, f4 = 0, f5 = 0, gdp = 0,
                   ax = 0, ay = 0, az = 0, gx = 0, gy = 0, gz = 0\<rparr>"

record SentencePredictor =
  buffer :: "SensorSample list"
  bufferIndex :: u8
  lastSampleTime :: u32
  bufferFilled :: bool
  isRecording :: bool
  recordingStartTime :: u32

text \<open>
  The constructor initialises every member but \<^verbatim>\<open>buffer\<close>; \<open>mem\<close> is what the storage
  of the array holds at construction (all zero for the global object of main.cpp).
\<close>

definition SentencePredictor_ctor :: "SensorSample list \<Rightarrow> SentencePredictor" where
  "SentencePredictor_ctor mem =
     \<lparr>buffer = mem, bufferIndex = 0, lastSampleTime = 0, bufferFilled = False,
      isRecording = False, recordingStartTime = 0\<rparr>"

subsection \<open>The window buffer\<close>

definition startRecording :: "u32 \<Rightarrow> SentencePredictor \<Rightarrow> SentencePredictor" where
  "startRecording now s =
     s\<lparr>isRecording := True,
       recordingStartTime := now,
       bufferIndex := 0,
       bufferFilled := False,
       buffer := replicate SENTENCE_SAMPLES_PER_WINDOW zero_sample\<rparr>"

definition recording :: "SentencePredictor \<Rightarrow> bool" where
  "recording s = isRecording s"

definition getRemainingTime :: "u32 \<Rightarrow> SentencePredictor \<Rightarrow> u32" where
  "getRemainingTime now s =
     (if \<not> isRecording s then 0
      else let elapsed = now - recordingStartTime s in
        if elapsed \<ge> SENTENCE_WINDOW_DURATION_MS then 0
        else SENTENCE_WINDOW_DURATION_MS - elapsed)"

text \<open>
  \<open>store_sample\<close> is the block of twelve field assignments to \<^verbatim>\<open>buffer[bufferIndex]\<close>
  (lines 87-98). A write past the end of the array is undefined behaviour in C++; here it
  leaves the list as it is, and \<open>recording_cursor_in_range\<close> below shows that no state the
  class can reach performs one.
\<close>

definition store_sample ::
  "SensorSample list \<Rightarrow> nat \<Rightarrow> real \<Rightarrow> real \<Rightarrow> real \<Rightarrow> real \<Rightarrow> real \<Rightarrow> real \<Rightarrow>
   real \<Rightarrow> real \<Rightarrow> real \<Rightarrow> real \<Rightarrow> real \<Rightarrow> real \<Rightarrow> SensorSample list" where
  "store_sample buf i a1 a2 a3 a4 a5 g x y z u v w =
     (if i < length buf
      then buf[i := (buf ! i)\<lparr>f1 := a1, f2 := a2, f3 := a3, f4 := a4, f5 := a5, gdp := g,
                              ax := x, ay := y, az := z, gx := u, gy := v, gz := w\<rparr>]
      else buf)"

definition addSample ::
  "real \<Rightarrow> real \<Rightarrow> real \<Rightarrow> real \<Rightarrow> real \<Rightarrow> real \<Rightarrow> real \<Rightarrow> real \<Rightarrow> real \<Rightarrow> real \<Rightarrow> real \<Rightarrow> real \<Rightarrow>
   u32 \<Rightarrow> SentencePredictor \<Rightarrow> bool \<times> SentencePredictor" where
  "addSample a1 a2 a3 a4 a5 g x y z u v w now s =
     (if \<not> isRecording s then (False, s)
      else if now - lastSampleTime s < SENTENCE_SAMPLE_INTERVAL_MS then (False, s)
      else
        let s1 = s\<lparr>buffer := store_sample (buffer s) (unat (bufferIndex s))
                               a1 a2 a3 a4 a5 g x y z u v w\<rparr>;
            s2 = s1\<lparr>lastSampleTime := now\<rparr>;
            s3 = s2\<lparr>bufferIndex := bufferIndex s2 + 1\<rparr>
        in
          if unat (bufferIndex s3) \<ge> SENTENCE_SAMPLES_PER_WINDOW
          then (True, s3\<lparr>bufferFilled := True, isRecording := False\<rparr>)
          else if now - recordingStartTime s3 \<ge> SENTENCE_WINDOW_DURATION_MS
          then (True, s3\<lparr>bufferFilled := True, isRecording := False\<rparr>)
          else (False, s3))"

definition reset :: "SentencePredictor \<Rightarrow> SentencePredictor" where
  "reset s = s\<lparr>bufferIndex := 0, bufferFilled := False, isRecording := False\<rparr>"

subsection \<open>The build-time tables\<close>

text \<open>
  \<^verbatim>\<open>sentence_knn_model.h\<close> and \<^verbatim>\<open>sentence_scaler_params.h\<close> are generated by the offline
  training step and are not part of the sources. What the class uses of them is a
  parameter here: the constants K, N, D and the number of classes, the flat training
  table, the label table, and the standardisation function.
\<close>

record knn_model =
  SENTENCE_KNN_N_NEIGHBORS :: nat
  SENTENCE_KNN_N_SAMPLES :: nat
  SENTENCE_KNN_N_FEATURES :: nat
  SENTENCE_NUM_CLASSES :: nat
  SENTENCE_TRAINING_DATA :: "real list"
  SENTENCE_TRAINING_LABELS :: "u8 list"
  standardizeSentenceFeatures :: "real list \<Rightarrow> real list"

subsection \<open>The KNN search (predictSentenceKNN, lines 163-209)\<close>

text \<open>
  The inner loop over the D features and the square root (lines 181-190), in single
  precision: the subtraction, the multiplication and the addition of every pass each
  round, and so does \<^verbatim>\<open>sqrtf\<close>. The query and the table hold finite values. Once an
  intermediate result is not finite, so is every later sum and the root, hence \<open>None\<close>.
\<close>

definition row_distance :: "knn_model \<Rightarrow> real list \<Rightarrow> nat \<Rightarrow> real option" where
  "row_distance m query i =
     Option.bind
       (fold (\<lambda>d acc.
                Option.bind acc (\<lambda>dst.
                  let train_val = SENTENCE_TRAINING_DATA m ! (i * SENTENCE_KNN_N_FEATURES m + d)
                  in Option.bind (fsub (query ! d) train_val) (\<lambda>diff.
                       Option.bind (fmul diff diff) (\<lambda>sq. fadd dst sq))))
             [0..<SENTENCE_KNN_N_FEATURES m] (Some 0))
       fsqrt"

text \<open>The reverse scan for the insertion position (lines 195-198).\<close>

function find_pos :: "real \<Rightarrow> real list \<Rightarrow> nat \<Rightarrow> nat" where
  "find_pos dst nearestDist pos =
     (if pos > 0 \<and> dst < nearestDist ! (pos - 1)
      then find_pos dst nearestDist (pos - 1) else pos)"
  by pat_completeness auto
termination
  by (relation "measure (\<lambda>(dst, nearestDist, pos). pos)") auto

text \<open>The shift of both arrays to the right, \<open>j\<close> running down to \<open>pos + 1\<close> (lines 201-204).\<close>

function shift_right :: "nat \<Rightarrow> nat \<Rightarrow> real list \<times> u8 list \<Rightarrow> real list \<times> u8 list" where
  "shift_right j pos (nearestDist, nearestLabels) =
     (if j > pos
      then shift_right (j - 1) pos
             (nearestDist[j := nearestDist ! (j - 1)],
              nearestLabels[j := nearestLabels ! (j - 1)])
      else (nearestDist, nearestLabels))"
  by pat_completeness auto
termination
  by (relation "measure (\<lambda>(j, pos, arrays). j)") auto

text \<open>What the search does with one reference row of distance \<open>dst\<close> (lines 192-208).\<close>

definition knn_visit :: "nat \<Rightarrow> real \<Rightarrow> u8 \<Rightarrow> real list \<times> u8 list \<Rightarrow> real list \<times> u8 list" where
  "knn_visit K dst label arrays =
     (case arrays of (nearestDist, nearestLabels) \<Rightarrow>
        if dst < nearestDist ! (K - 1) then
          let pos = find_pos dst nearestDist (K - 1) in
          case shift_right (K - 1) pos (nearestDist, nearestLabels) of
            (nearestDist', nearestLabels') \<Rightarrow>
              (nearestDist'[pos := dst], nearestLabels'[pos := label])
        else (nearestDist, nearestLabels))"

text \<open>The sentinel distance the two arrays start from (line 174).\<close>

definition sentinel_dist :: real where
  "sentinel_dist = 1000000000"

definition knn_init :: "nat \<Rightarrow> real list \<times> u8 list" where
  "knn_init K = (replicate K sentinel_dist, replicate K 0)"

text \<open>
  The loop over the N reference rows (lines 179-209). A distance that is not finite is
  \<open>+\<infinity>\<close> or NaN, as it is the root of a sum of squares; the test
  \<^verbatim>\<open>dist < nearestDist[K-1]\<close> of line 193 is then false and the row is passed over.
\<close>

definition knn_search :: "knn_model \<Rightarrow> real list \<Rightarrow> real list \<times> u8 list" where
  "knn_search m query =
     fold (\<lambda>i arrays.
             case row_distance m query i of
               None \<Rightarrow> arrays
             | Some dst \<Rightarrow>
                 knn_visit (SENTENCE_KNN_N_NEIGHBORS m) dst (SENTENCE_TRAINING_LABELS m ! i) arrays)
          [0..<SENTENCE_KNN_N_SAMPLES m]
          (knn_init (SENTENCE_KNN_N_NEIGHBORS m))"

subsection \<open>The vote (lines 211-225) and the mean distance (lines 227-232)\<close>

definition count_votes :: "nat \<Rightarrow> u8 list \<Rightarrow> u8 list \<Rightarrow> u8 list" where
  "count_votes K nearestLabels votes0 =
     fold (\<lambda>i votes. votes[unat (nearestLabels ! i) := votes ! unat (nearestLabels ! i) + 1])
          [0..<K] votes0"

text \<open>The scan for the label with most votes; the state is \<open>(bestLabel, maxVotes)\<close>.\<close>

definition best_step :: "u8 list \<Rightarrow> nat \<Rightarrow> u8 \<times> u8 \<Rightarrow> u8 \<times> u8" where
  "best_step votes i st =
     (case st of (bestLabel, maxVotes) \<Rightarrow>
        if votes ! i > maxVotes then (of_nat i, votes ! i) else (bestLabel, maxVotes))"

definition find_best :: "nat \<Rightarrow> u8 list \<Rightarrow> u8 \<times> u8" where
  "find_best C votes = fold (best_step votes) [0..<C] (0, 0)"

definition majority_vote :: "nat \<Rightarrow> nat \<Rightarrow> u8 list \<Rightarrow> u8" where
  "majority_vote C K nearestLabels =
     fst (find_best C (count_votes K nearestLabels (replicate C 0)))"

text \<open>
  The sum is accumulated in single precision; \<^verbatim>\<open>K\<close> is converted to \<^verbatim>\<open>float\<close> for the
  division.
\<close>

definition mean_distance :: "nat \<Rightarrow> real list \<Rightarrow> real option" where
  "mean_distance K nearestDist =
     Option.bind
       (fold (\<lambda>i acc. Option.bind acc (\<lambda>sumDist. fadd sumDist (nearestDist ! i)))
             [0..<K] (Some 0))
       (\<lambda>sumDist. Option.bind (fl (real K)) (\<lambda>k. fdiv sumDist k))"

text \<open>
  The whole of \<^verbatim>\<open>predictSentenceKNN\<close>. The C++ code checks no index. \<open>None\<close> stands for
  the configurations on which the model gives no result: no neighbour at all (K = 0, where
  \<^verbatim>\<open>nearestDist[K-1]\<close> is read), tables or a query shorter than the constants say, a
  kept label that is no index of \<^verbatim>\<open>votes\<close>, and a mean distance that is not finite (the
  kept distances are at most 1e9, so that takes more than \<open>10 ^ 29\<close> neighbours).
\<close>

definition tables_ok :: "knn_model \<Rightarrow> real list \<Rightarrow> bool" where
  "tables_ok m query \<longleftrightarrow>
     0 < SENTENCE_KNN_N_NEIGHBORS m \<and>
     SENTENCE_KNN_N_SAMPLES m * SENTENCE_KNN_N_FEATURES m \<le> length (SENTENCE_TRAINING_DATA m) \<and>
     SENTENCE_KNN_N_SAMPLES m \<le> length (SENTENCE_TRAINING_LABELS m) \<and>
     SENTENCE_KNN_N_FEATURES m \<le> length query"

definition predictSentenceKNN :: "knn_model \<Rightarrow> real list \<Rightarrow> (u8 \<times> real) option" where
  "predictSentenceKNN m query =
     (if \<not> tables_ok m query then None
      else case knn_search m query of (nearestDist, nearestLabels) \<Rightarrow>
        if \<not> list_all (\<lambda>l. unat l < SENTENCE_NUM_CLASSES m) nearestLabels then None
        else map_option
               (\<lambda>meanDist.
                  (majority_vote (SENTENCE_NUM_CLASSES m) (SENTENCE_KNN_N_NEIGHBORS m) nearestLabels,
                   meanDist))
               (mean_distance (SENTENCE_KNN_N_NEIGHBORS m) nearestDist))"

subsection \<open>predict (lines 122-152)\<close>

definition flatten_buffer :: "SensorSample list \<Rightarrow> real list" where
  "flatten_buffer buf =
     concat (map (\<lambda>t. [f1 (buf ! t), f2 (buf ! t), f3 (buf ! t), f4 (buf ! t), f5 (buf ! t),
                        gdp (buf ! t), ax (buf ! t), ay (buf ! t), az (buf ! t),
                        gx (buf ! t), gy (buf ! t), gz (buf ! t)])
                 [0..<SENTENCE_SAMPLES_PER_WINDOW])"

text \<open>
  The result is the returned label with the value written through \<^verbatim>\<open>meanDistance\<close>, and
  the object after the call.
\<close>

definition predict :: "knn_model \<Rightarrow> SentencePredictor \<Rightarrow> (u8 \<times> real) option \<times> SentencePredictor" where
  "predict m s =
     (if \<not> bufferFilled s then (Some (0, 999999), s)
      else (predictSentenceKNN m (standardizeSentenceFeatures m (flatten_buffer (buffer s))), s))"

subsection \<open>Sequences of calls\<close>

datatype operation =
    StartRecording u32
  | AddSample SensorSample u32
  | Predict
  | Reset

fun step :: "knn_model \<Rightarrow> operation \<Rightarrow> SentencePredictor \<Rightarrow> SentencePredictor" where
  "step m (StartRecording now) s = startRecording now s"
| "step m (AddSample x now) s =
     snd (addSample (f1 x) (f2 x) (f3 x) (f4 x) (f5 x) (gdp x)
                    (ax x) (ay x) (az x) (gx x) (gy x) (gz x) now s)"
| "step m Predict s = snd (predict m s)"
| "step m Reset s = reset s"

definition run :: "knn_model \<Rightarrow> operation list \<Rightarrow> SentencePredictor \<Rightarrow> SentencePredictor" where
  "run m ops s = fold (step m) ops s"

fun is_start :: "operation \<Rightarrow> bool" where
  "is_start (StartRecording now) = True"
| "is_start other = False"

text \<open>A run of \<^verbatim>\<open>addSample\<close> calls, each with its sample and its \<^verbatim>\<open>millis()\<close>.\<close>

definition feed :: "(SensorSample \<times> u32) list \<Rightarrow> SentencePredictor \<Rightarrow> SentencePredictor" where
  "feed calls s =
     fold (\<lambda>(x, now) s'.
             snd (addSample (f1 x) (f2 x) (f3 x) (f4 x) (f5 x) (gdp x)
                            (ax x) (ay x) (az x) (gx x) (gy x) (gz x) now s'))
          calls s"

text \<open>The results of the calls of such a run, in order.\<close>

fun feed_results :: "(SensorSample \<times> u32) list \<Rightarrow> SentencePredictor \<Rightarrow> bool list" where
  "feed_results [] s = []"
| "feed_results ((x, now) # calls) s =
     (case addSample (f1 x) (f2 x) (f3 x) (f4 x) (f5 x) (gdp x)
                     (ax x) (ay x) (az x) (gx x) (gy x) (gz x) now s of
        (windowComplete, s') \<Rightarrow> windowComplete # feed_results calls s')"

text \<open>
  How many of the timestamps \<open>ts\<close> lie at least one sample interval after the previously
  counted one, starting from \<open>prev\<close>; the difference is that of \<^verbatim>\<open>uint32_t\<close>.
\<close>

fun spaced_count :: "u32 \<Rightarrow> u32 list \<Rightarrow> nat" where
  "spaced_count prev [] = 0"
| "spaced_count prev (t # ts) =
     (if t - prev < SENTENCE_SAMPLE_INTERVAL_MS then spaced_count prev ts
      else Suc (spaced_count t ts))"

subsection \<open>The controller (main.cpp)\<close>

text \<open>
  The button handling of \<^verbatim>\<open>loop()\<close> (lines 141-162). \<^verbatim>\<open>HIGH\<close> is \<open>True\<close>. The three
  readings of \<^verbatim>\<open>millis()\<close> are those of lines 145 and 148 and the one inside
  \<^verbatim>\<open>startRecording\<close>.
\<close>

record controller =
  sentencePredictor :: SentencePredictor
  sentenceModeActive :: bool
  lastButtonState :: bool
  lastDebounceTime :: u32

definition DEBOUNCE_DELAY_MS :: u32 where
  "DEBOUNCE_DELAY_MS = 50"

definition loop_button :: "bool \<Rightarrow> u32 \<Rightarrow> u32 \<Rightarrow> u32 \<Rightarrow> controller \<Rightarrow> controller" where
  "loop_button buttonReading t1 t2 t3 c =
     (let c1 = (if buttonReading \<noteq> lastButtonState c then c\<lparr>lastDebounceTime := t1\<rparr> else c);
          c2 = (if t2 - lastDebounceTime c1 > DEBOUNCE_DELAY_MS then
                  if \<not> buttonReading \<and> lastButtonState c1 then
                    if \<not> recording (sentencePredictor c1) then
                      c1\<lparr>sentenceModeActive := True,
                         sentencePredictor := startRecording t3 (sentencePredictor c1)\<rparr>
                    else c1
                  else c1
                else c1)
      in c2\<lparr>lastButtonState := buttonReading\<rparr>)"

text \<open>
  The confidence shown for a sentence (line 267), \<^verbatim>\<open>1.0f / (1.0f + meanDist)\<close>: the sum
  rounds, then the quotient.
\<close>

definition confidence :: "real \<Rightarrow> real option" where
  "confidence meanDist = Option.bind (fadd 1 meanDist) (\<lambda>s. fdiv 1 s)"

subsection \<open>Notions used to state the properties\<close>

text \<open>
  What holds in every state the class can reach: the cursor stays within the array, a
  recording in progress has room for one more sample in an array of full length, and a
  filled buffer is not recording.
\<close>

definition window_inv :: "SentencePredictor \<Rightarrow> bool" where
  "window_inv s \<longleftrightarrow>
     unat (bufferIndex s) \<le> SENTENCE_SAMPLES_PER_WINDOW \<and>
     (isRecording s \<longrightarrow> unat (bufferIndex s) < SENTENCE_SAMPLES_PER_WINDOW \<and>
                          length (buffer s) = SENTENCE_SAMPLES_PER_WINDOW) \<and>
     (bufferFilled s \<longrightarrow> \<not> isRecording s)"

text \<open>
  A recording session as the specification describes it, for a run of calls after
  \<^verbatim>\<open>startRecording\<close>: \<open>prev\<close> is the time of the last accepted sample, \<open>start\<close> the
  time of \<^verbatim>\<open>startRecording\<close>, \<open>n\<close> the number of samples accepted so far. A call that
  comes less than the sample interval after the last accepted one is dropped. An
  accepted call completes the window when its sample is the last the buffer has room for
  or when the window duration has passed since the start; after that no call is accepted.
  \<open>session_results\<close> is what the calls report, \<open>session_samples\<close> the samples they
  store.
\<close>

fun session_results :: "u32 \<Rightarrow> u32 \<Rightarrow> nat \<Rightarrow> (SensorSample \<times> u32) list \<Rightarrow> bool list" where
  "session_results prev start n [] = []"
| "session_results prev start n ((x, now) # calls) =
     (if now - prev < SENTENCE_SAMPLE_INTERVAL_MS then False # session_results prev start n calls
      else if SENTENCE_SAMPLES_PER_WINDOW \<le> n + 1 \<or> SENTENCE_WINDOW_DURATION_MS \<le> now - start
      then True # replicate (length calls) False
      else False # session_results now start (n + 1) calls)"

fun session_samples :: "u32 \<Rightarrow> u32 \<Rightarrow> nat \<Rightarrow> (SensorSample \<times> u32) list \<Rightarrow> SensorSample list" where
  "session_samples prev start n [] = []"
| "session_samples prev start n ((x, now) # calls) =
     (if now - prev < SENTENCE_SAMPLE_INTERVAL_MS then session_samples prev start n calls
      else if SENTENCE_SAMPLES_PER_WINDOW \<le> n + 1 \<or> SENTENCE_WINDOW_DURATION_MS \<le> now - start
      then [x]
      else x # session_samples now start (n + 1) calls)"

text \<open>The two neighbour arrays read as one list of (distance, label) pairs.\<close>

definition kept :: "real list \<times> u8 list \<Rightarrow> (real \<times> u8) list" where
  "kept arrays = zip (fst arrays) (snd arrays)"

text \<open>
  The arrays the search maintains: both of length K, the distances in ascending order.
\<close>

definition arrays_ok :: "nat \<Rightarrow> real list \<times> u8 list \<Rightarrow> bool" where
  "arrays_ok K arrays \<longleftrightarrow>
     length (fst arrays) = K \<and> length (snd arrays) = K \<and> sorted (fst arrays)"

text \<open>
  Insertion into a list of pairs ordered by distance, behind every pair whose distance is
  not larger: the specification of one accepted visit, before the list is cut to K.
\<close>

fun insert_after :: "real \<times> u8 \<Rightarrow> (real \<times> u8) list \<Rightarrow> (real \<times> u8) list" where
  "insert_after x [] = [x]"
| "insert_after x (y # ys) = (if fst y \<le> fst x then y # insert_after x ys else x # y # ys)"

text \<open>
  The reference rows for a query, in table order, each as the distance the code computes
  for it and its label; a row whose computed distance is not finite is left out.
\<close>

definition reference_rows :: "knn_model \<Rightarrow> real list \<Rightarrow> (real \<times> u8) list" where
  "reference_rows m query =
     List.map_filter
       (\<lambda>i. map_option (\<lambda>dst. (dst, SENTENCE_TRAINING_LABELS m ! i)) (row_distance m query i))
       [0..<SENTENCE_KNN_N_SAMPLES m]"

text \<open>The number of neighbours that vote for class \<open>c\<close>.\<close>

definition votes_for :: "nat \<Rightarrow> u8 list \<Rightarrow> nat" where
  "votes_for c labels = length (filter (\<lambda>l. unat l = c) labels)"

subsection \<open>Example configurations and states\<close>

text \<open>
  The storage of the global \<^verbatim>\<open>sentencePredictor\<close> of main.cpp before its constructor
  runs: an object of static storage duration is zero-initialised.
\<close>

definition static_mem :: "SensorSample list" where
  "static_mem = replicate SENTENCE_SAMPLES_PER_WINDOW zero_sample"

definition demo_sample :: SensorSample where
  "demo_sample = \<lparr>f1 = 1, f2 = 0, f3 = 0, f4 = 0, f5 = 0, gdp = 0,
                   ax = 0, ay = 0, az = 1, gx = 0, gy = 0, gz = 0\<rparr>"

text \<open>One reference row, one feature, one neighbour.\<close>

definition demo_model :: knn_model where
  "demo_model = \<lparr>SENTENCE_KNN_N_NEIGHBORS = 1, SENTENCE_KNN_N_SAMPLES = 1,
                  SENTENCE_KNN_N_FEATURES = 1, SENTENCE_NUM_CLASSES = 2,
                  SENTENCE_TRAINING_DATA = [0], SENTENCE_TRAINING_LABELS = [1],
                  standardizeSentenceFeatures = (\<lambda>features. features)\<rparr>"

text \<open>Two neighbours wanted, one reference row only.\<close>

definition small_model :: knn_model where
  "small_model = \<lparr>SENTENCE_KNN_N_NEIGHBORS = 2, SENTENCE_KNN_N_SAMPLES = 1,
                  SENTENCE_KNN_N_FEATURES = 1, SENTENCE_NUM_CLASSES = 2,
                  SENTENCE_TRAINING_DATA = [0], SENTENCE_TRAINING_LABELS = [1],
                  standardizeSentenceFeatures = (\<lambda>features. features)\<rparr>"

text \<open>
  Three rows of two features. From the query \<open>[0, 0]\<close> the exact distances of the first
  two differ, \<open>sqrt 16777217\<close> and 4096, but in single precision \<open>16777216 + 1\<close> rounds
  to 16777216 and both come out as 4096; the third row is at distance 5.
\<close>

definition three_row_model :: knn_model where
  "three_row_model = \<lparr>SENTENCE_KNN_N_NEIGHBORS = 2, SENTENCE_KNN_N_SAMPLES = 3,
                  SENTENCE_KNN_N_FEATURES = 2, SENTENCE_NUM_CLASSES = 3,
                  SENTENCE_TRAINING_DATA = [4096, 1, 4096, 0, 3, 4],
                  SENTENCE_TRAINING_LABELS = [1, 2, 0],
                  standardizeSentenceFeatures = (\<lambda>features. features)\<rparr>"

text \<open>A recording started at 0 ms whose only sample so far arrived at 3990 ms.\<close>

definition late_state :: SentencePredictor where
  "late_state = run demo_model [StartRecording 0, AddSample demo_sample 3990] (SentencePredictor_ctor static_mem)"

text \<open>A recording started at 0 ms that has accepted one sample, at 100 ms.\<close>

definition active_state :: SentencePredictor where
  "active_state = run demo_model [StartRecording 0, AddSample demo_sample 100] (SentencePredictor_ctor static_mem)"

text \<open>The controller with the button released and a recording in progress, and at rest.\<close>

definition pressed_ctl :: controller where
  "pressed_ctl = \<lparr>sentencePredictor = active_state, sentenceModeActive = True,
                   lastButtonState = True, lastDebounceTime = 0\<rparr>"

definition idle_ctl :: controller where
  "idle_ctl = \<lparr>sentencePredictor = SentencePredictor_ctor static_mem, sentenceModeActive = False,
                lastButtonState = True, lastDebounceTime = 0\<rparr>"

section \<open>Properties of the rounding\<close>

lemma rne_of_int: "rne (of_int n) = n"
  by (simp add: rne_def)

lemma rne_floor_le: "\<lfloor>y\<rfloor> \<le> rne y"
  by (simp add: rne_def Let_def)

lemma rne_le_floor_Suc: "rne y \<le> \<lfloor>y\<rfloor> + 1"
  by (simp add: rne_def Let_def)

lemma rne_mono:
  assumes "y \<le> z"
  shows "rne y \<le> rne z"
proof (cases "\<lfloor>y\<rfloor> = \<lfloor>z\<rfloor>")
  case True
  with assms show ?thesis by (auto simp: rne_def Let_def)
next
  case False
  moreover from assms have "\<lfloor>y\<rfloor> \<le> \<lfloor>z\<rfloor>" by (rule floor_mono)
  ultimately have "\<lfloor>y\<rfloor> + 1 \<le> \<lfloor>z\<rfloor>" by simp
  with rne_le_floor_Suc [of y] rne_floor_le [of z] show ?thesis by linarith
qed

lemma rne_le_int: "y \<le> of_int n \<Longrightarrow> rne y \<le> n"
  using rne_mono [of y "of_int n"] by (simp add: rne_of_int)

lemma rne_ge_int: "of_int n \<le> y \<Longrightarrow> n \<le> rne y"
  using rne_mono [of "of_int n" y] by (simp add: rne_of_int)

lemma two_powr_int: "2 powr real_of_int k = (2::real) powi k"
  by (simp add: powr_real_of_int')

lemma two_powr_int_Suc: "2 powr (real_of_int k + 1) = (2::real) powi (k + 1)"
  using two_powr_int [of "k + 1"] by simp

lemma two_powi_int: "0 \<le> n \<Longrightarrow> (2::real) powi n = of_int (2 ^ nat n)"
  by (simp add: power_int_def)

lemma expo_bounds:
  assumes "x \<noteq> 0"
  shows "2 powi expo x \<le> \<bar>x\<bar>" and "\<bar>x\<bar> < 2 powi (expo x + 1)"
proof -
  from assms have p: "0 < \<bar>x\<bar>" by simp
  have "2 powr real_of_int (expo x) \<le> \<bar>x\<bar> \<and> \<bar>x\<bar> < 2 powr real_of_int (expo x + 1)"
    using floor_log_eq_powr_iff [OF p, of 2 "expo x"] by (simp add: expo_def)
  then show "2 powi expo x \<le> \<bar>x\<bar>" and "\<bar>x\<bar> < 2 powi (expo x + 1)"
    by (simp_all add: two_powr_int two_powr_int_Suc)
qed

lemma expo_eqI:
  assumes "2 powi e \<le> \<bar>x\<bar>" and "\<bar>x\<bar> < 2 powi (e + 1)"
  shows "expo x = e"
proof -
  have "0 < (2::real) powi e" by simp
  with assms(1) have p: "0 < \<bar>x\<bar>" by linarith
  have "2 powr real_of_int e \<le> \<bar>x\<bar> \<and> \<bar>x\<bar> < 2 powr real_of_int (e + 1)"
    using assms by (simp add: two_powr_int two_powr_int_Suc)
  then show ?thesis
    using floor_log_eq_powr_iff [OF p, of 2 e] by (simp add: expo_def)
qed

lemma expo_mono: "0 < x \<Longrightarrow> x \<le> y \<Longrightarrow> expo x \<le> expo y"
  by (simp add: expo_def floor_mono log_mono)

lemma qexp_mono: "0 < x \<Longrightarrow> x \<le> y \<Longrightarrow> qexp x \<le> qexp y"
  using expo_mono [of x y] by (simp add: qexp_def)

lemma flv_nonzero: "x \<noteq> 0 \<Longrightarrow> flv x = of_int (rne (x / 2 powi qexp x)) * 2 powi qexp x"
  by (simp add: flv_def)

lemma flv_le_bound:
  assumes "0 < x" and "x \<le> 2 powi b" and "qexp x \<le> b"
  shows "flv x \<le> 2 powi b"
proof -
  let ?q = "qexp x"
  have "x / 2 powi ?q \<le> 2 powi b / 2 powi ?q"
    using assms(2) by (simp add: divide_right_mono)
  also have "\<dots> = 2 powi (b - ?q)" by (simp add: power_int_diff)
  also have "\<dots> = of_int (2 ^ nat (b - ?q))" using assms(3) by (simp add: two_powi_int)
  finally have "rne (x / 2 powi ?q) \<le> 2 ^ nat (b - ?q)" by (rule rne_le_int)
  then have "real_of_int (rne (x / 2 powi ?q)) \<le> of_int (2 ^ nat (b - ?q))"
    by (simp only: of_int_le_iff)
  also have "\<dots> = 2 powi (b - ?q)" using assms(3) by (simp add: two_powi_int)
  finally have "real_of_int (rne (x / 2 powi ?q)) * 2 powi ?q \<le> 2 powi (b - ?q) * 2 powi ?q"
    by (simp add: mult_right_mono)
  also have "\<dots> = 2 powi b" by (simp flip: power_int_add)
  finally show ?thesis using assms(1) by (simp add: flv_nonzero)
qed

lemma flv_ge_bound:
  assumes "0 < x" and "2 powi b \<le> x" and "qexp x \<le> b"
  shows "2 powi b \<le> flv x"
proof -
  let ?q = "qexp x"
  have "(2::real) powi (b - ?q) = 2 powi b / 2 powi ?q" by (simp add: power_int_diff)
  also have "\<dots> \<le> x / 2 powi ?q" using assms(2) by (simp add: divide_right_mono)
  finally have "of_int (2 ^ nat (b - ?q)) \<le> x / 2 powi ?q"
    using assms(3) by (simp add: two_powi_int)
  then have "2 ^ nat (b - ?q) \<le> rne (x / 2 powi ?q)" by (rule rne_ge_int)
  then have "real_of_int (2 ^ nat (b - ?q)) \<le> of_int (rne (x / 2 powi ?q))"
    by (simp only: of_int_le_iff)
  then have "2 powi (b - ?q) \<le> real_of_int (rne (x / 2 powi ?q))"
    using assms(3) by (simp add: two_powi_int)
  then have "2 powi (b - ?q) * 2 powi ?q \<le> real_of_int (rne (x / 2 powi ?q)) * 2 powi ?q"
    by (simp add: mult_right_mono)
  moreover have "2 powi (b - ?q) * 2 powi ?q = (2::real) powi b" by (simp flip: power_int_add)
  ultimately show ?thesis using assms(1) by (simp add: flv_nonzero)
qed

text \<open>
  Rounding is monotone. Within one spacing that is the monotonicity of \<open>rne\<close>; across
  two spacings a power of two lies between the arguments, and it is a value of both grids.
\<close>

lemma flv_mono:
  assumes "0 < x" and "x \<le> y"
  shows "flv x \<le> flv y"
proof -
  from assms have y: "0 < y" by simp
  have q: "qexp x \<le> qexp y" using assms by (rule qexp_mono)
  show ?thesis
  proof (cases "qexp x = qexp y")
    case True
    have "x / 2 powi qexp y \<le> y / 2 powi qexp y"
      using assms(2) by (simp add: divide_right_mono)
    then have "rne (x / 2 powi qexp y) \<le> rne (y / 2 powi qexp y)" by (rule rne_mono)
    then have "real_of_int (rne (x / 2 powi qexp y)) * 2 powi qexp y \<le>
               real_of_int (rne (y / 2 powi qexp y)) * 2 powi qexp y"
      by (simp add: mult_right_mono)
    with assms(1) y True show ?thesis by (simp add: flv_nonzero)
  next
    case False
    with q have lt: "qexp x < qexp y" by simp
    then have qy: "qexp y = expo y - 23" and ex: "expo x + 1 \<le> expo y"
      by (simp_all add: qexp_def max_def split: if_splits)
    let ?b = "expo y"
    have "x < 2 powi (expo x + 1)" using expo_bounds(2) [of x] assms(1) by simp
    also have "\<dots> \<le> 2 powi ?b" using ex by (simp add: power_int_increasing)
    finally have xb: "x \<le> 2 powi ?b" by simp
    have yb: "2 powi ?b \<le> y" using expo_bounds(1) [of y] y by simp
    have "flv x \<le> 2 powi ?b"
      using assms(1) xb by (rule flv_le_bound) (use lt qy in simp)
    moreover have "2 powi ?b \<le> flv y"
      using y yb by (rule flv_ge_bound) (simp add: qy)
    ultimately show ?thesis by simp
  qed
qed

text \<open>Evaluation at a point whose binary exponent is given.\<close>

lemma flv_eval:
  assumes "2 powi e \<le> \<bar>x\<bar>" and "\<bar>x\<bar> < 2 powi (e + 1)"
  shows "flv x = of_int (rne (x / 2 powi (max (e - 23) (- 149)))) * 2 powi (max (e - 23) (- 149))"
proof -
  have "0 < (2::real) powi e" by simp
  with assms(1) have "0 < \<bar>x\<bar>" by linarith
  then have "x \<noteq> 0" by simp
  moreover have "expo x = e" using assms by (rule expo_eqI)
  ultimately show ?thesis by (simp add: flv_nonzero qexp_def)
qed

lemma fl_zero: "fl 0 = Some 0"
  by (simp add: fl_def flv_def)

text \<open>An integer of less than 24 bits is a value of the format.\<close>

lemma fl_int:
  assumes "\<bar>n\<bar> < 2 ^ 24"
  shows "fl (of_int n) = Some (of_int n)"
proof (cases "n = 0")
  case True
  then show ?thesis by (simp add: fl_zero)
next
  case False
  let ?x = "real_of_int n"
  from False have x: "?x \<noteq> 0" by simp
  have "2 powi expo ?x \<le> \<bar>?x\<bar>" using x by (rule expo_bounds(1))
  also have "\<bar>?x\<bar> < 2 powi 24" using assms by (metis of_int_abs of_int_less_numeral_power_cancel_iff power_int_numeral)
  finally have lt: "(2::real) powi expo ?x < 2 powi 24" .
  have "expo ?x < 24"
  proof (rule ccontr)
    assume "\<not> expo ?x < 24"
    then have "(2::real) powi 24 \<le> 2 powi expo ?x" by (intro power_int_increasing) simp_all
    with lt show False by simp
  qed
  then have q: "qexp ?x \<le> 0" by (simp add: qexp_def)
  have "?x / 2 powi qexp ?x = ?x * 2 powi (- qexp ?x)"
    by (simp add: power_int_minus field_simps)
  also have "\<dots> = of_int (n * 2 ^ nat (- qexp ?x))" using q by (simp add: two_powi_int)
  finally have "rne (?x / 2 powi qexp ?x) = n * 2 ^ nat (- qexp ?x)"
    by (simp only: rne_of_int)
  then have "flv ?x = of_int (n * 2 ^ nat (- qexp ?x)) * 2 powi qexp ?x"
    using x by (simp add: flv_nonzero)
  also have "\<dots> = ?x * (2 powi (- qexp ?x) * 2 powi qexp ?x)"
    using q by (simp add: two_powi_int)
  also have "\<dots> = ?x" by (simp flip: power_int_add)
  finally have v: "flv ?x = ?x" .
  have "\<bar>?x\<bar> < 2 ^ 24" using assms by (metis of_int_abs of_int_less_numeral_power_cancel_iff)
  then have "\<bar>?x\<bar> < 2 powi 128" by simp
  with v show ?thesis by (simp add: fl_def)
qed

section \<open>Properties of the window buffer\<close>

lemmas cfg = SENTENCE_WINDOW_DURATION_MS_def SENTENCE_SAMPLE_RATE_HZ_def
  SENTENCE_SAMPLES_PER_WINDOW_def SENTENCE_SAMPLE_INTERVAL_MS_def

lemmas ev = run_def SentencePredictor_ctor_def startRecording_def addSample_def reset_def
  store_sample_def demo_sample_def demo_model_def cfg Let_def predict_def recording_def

subsection \<open>The cursor\<close>

lemma unat_inc_le: "unat (i + 1 :: u8) \<le> unat i + 1"
  by (simp add: unat_word_ariths)

lemma unat_inc_small: "unat (i :: u8) < 80 \<Longrightarrow> unat (i + 1) = unat i + 1"
  by (simp add: unat_word_ariths)

lemma addSample_index_le:
  "unat (bufferIndex (snd (addSample a1 a2 a3 a4 a5 g x y z u v w now s))) \<le> unat (bufferIndex s) + 1"
  using unat_inc_le [of "bufferIndex s"] by (simp add: addSample_def Let_def)

lemma feed_Cons: "feed ((x, now) # cs) s = feed cs (snd (addSample (f1 x) (f2 x) (f3 x) (f4 x) (f5 x) (gdp x)
                            (ax x) (ay x) (az x) (gx x) (gy x) (gz x) now s))"
  by (simp add: feed_def)

lemma feed_Nil: "feed [] s = s"
  by (simp add: feed_def)

lemma feed_index_le: "unat (bufferIndex (feed cs s)) \<le> unat (bufferIndex s) + length cs"
proof (induction cs arbitrary: s)
  case Nil show ?case by (simp add: feed_Nil)
next
  case (Cons c cs)
  obtain x now where c: "c = (x, now)" by (cases c)
  let ?s' = "snd (addSample (f1 x) (f2 x) (f3 x) (f4 x) (f5 x) (gdp x)
                            (ax x) (ay x) (az x) (gx x) (gy x) (gz x) now s)"
  have "unat (bufferIndex (feed cs ?s')) \<le> unat (bufferIndex ?s') + length cs" by (rule Cons.IH)
  also have "\<dots> \<le> unat (bufferIndex s) + 1 + length cs" using addSample_index_le by simp
  finally show ?case by (simp add: c feed_Cons)
qed

lemma addSample_recording_back:
  "isRecording (snd (addSample a1 a2 a3 a4 a5 g x y z u v w now s)) \<Longrightarrow> isRecording s"
  by (simp add: addSample_def Let_def split: if_splits)

lemma feed_recording_back: "isRecording (feed cs s) \<Longrightarrow> isRecording s"
proof (induction cs arbitrary: s)
  case Nil then show ?case by (simp add: feed_Nil)
next
  case (Cons c cs)
  obtain x now where c: "c = (x, now)" by (cases c)
  from Cons.prems have "isRecording (snd (addSample (f1 x) (f2 x) (f3 x) (f4 x) (f5 x) (gdp x)
                            (ax x) (ay x) (az x) (gx x) (gy x) (gz x) now s))"
    unfolding c feed_Cons by (rule Cons.IH)
  then show ?case by (rule addSample_recording_back)
qed

lemma addSample_still_recording:
  assumes "isRecording (snd (addSample a1 a2 a3 a4 a5 g x y z u v w now s))"
      and "unat (bufferIndex s) < SENTENCE_SAMPLES_PER_WINDOW"
  shows "unat (bufferIndex (snd (addSample a1 a2 a3 a4 a5 g x y z u v w now s))) < SENTENCE_SAMPLES_PER_WINDOW"
    and "unat (bufferIndex (snd (addSample a1 a2 a3 a4 a5 g x y z u v w now s))) =
         unat (bufferIndex s) + spaced_count (lastSampleTime s) [now]"
    and "lastSampleTime (snd (addSample a1 a2 a3 a4 a5 g x y z u v w now s)) =
         (if now - lastSampleTime s < SENTENCE_SAMPLE_INTERVAL_MS then lastSampleTime s else now)"
  using assms unat_inc_small [of "bufferIndex s"]
  by (simp_all add: addSample_def Let_def SENTENCE_SAMPLES_PER_WINDOW_def split: if_splits)

lemma addSample_one:
  assumes "isRecording s" and "unat (bufferIndex s) < SENTENCE_SAMPLES_PER_WINDOW"
  shows "unat (bufferIndex (snd (addSample a1 a2 a3 a4 a5 g x y z u v w now s))) =
         unat (bufferIndex s) + spaced_count (lastSampleTime s) [now]"
  using assms unat_inc_small [of "bufferIndex s"]
  by (simp add: addSample_def Let_def SENTENCE_SAMPLES_PER_WINDOW_def)

lemma feed_count:
  "isRecording (feed (butlast cs) s) \<Longrightarrow> unat (bufferIndex s) < SENTENCE_SAMPLES_PER_WINDOW \<Longrightarrow>
   unat (bufferIndex (feed cs s)) = unat (bufferIndex s) + spaced_count (lastSampleTime s) (map snd cs)"
proof (induction cs arbitrary: s)
  case Nil show ?case by (simp add: feed_Nil)
next
  case (Cons c cs)
  obtain x now where c: "c = (x, now)" by (cases c)
  let ?s' = "snd (addSample (f1 x) (f2 x) (f3 x) (f4 x) (f5 x) (gdp x)
                            (ax x) (ay x) (az x) (gx x) (gy x) (gz x) now s)"
  show ?case
  proof (cases "cs = []")
    case True
    with Cons.prems have "isRecording s" by (simp add: feed_Nil)
    from addSample_one [OF this Cons.prems(2)] show ?thesis
      by (simp add: True c feed_Cons feed_Nil)
  next
    case False
    with Cons.prems(1) have r: "isRecording (feed (butlast cs) ?s')" by (simp add: c feed_Cons)
    then have r': "isRecording ?s'" by (rule feed_recording_back)
    note st = addSample_still_recording [OF r' Cons.prems(2)]
    have "unat (bufferIndex (feed cs ?s')) =
          unat (bufferIndex ?s') + spaced_count (lastSampleTime ?s') (map snd cs)"
      using r st(1) by (rule Cons.IH)
    then show ?thesis
      by (simp add: c feed_Cons st(2) st(3))
  qed
qed

text \<open>
  C6. A call of \<^verbatim>\<open>addSample\<close> whose \<^verbatim>\<open>millis()\<close> lies less than the sample interval
  after the last accepted sample is dropped: the object is unchanged (no write, no
  advance of the cursor) and the result is "not complete". Hence after any run of calls the
  cursor has advanced by at most the number of calls, and as long as the recording is
  still active before the last call, it has advanced by exactly the number of calls that
  lie at least one interval after the previously accepted one.
\<close>

theorem addSample_spacing:
  "(now - lastSampleTime s < SENTENCE_SAMPLE_INTERVAL_MS \<longrightarrow>
      addSample a1 a2 a3 a4 a5 g x y z u v w now s = (False, s)) \<and>
   unat (bufferIndex (feed calls s)) \<le> unat (bufferIndex s) + length calls \<and>
   (isRecording (feed (butlast calls) s) \<and> unat (bufferIndex s) < SENTENCE_SAMPLES_PER_WINDOW \<longrightarrow>
      unat (bufferIndex (feed calls s)) =
        unat (bufferIndex s) + spaced_count (lastSampleTime s) (map snd calls))"
  using feed_index_le [of calls s] feed_count [of calls s]
  by (simp add: addSample_def)

theorem addSample_spacing_witness:
  "(120 :: u32) - lastSampleTime (feed [(demo_sample, 100)] (startRecording 0 (SentencePredictor_ctor static_mem)))
      < SENTENCE_SAMPLE_INTERVAL_MS \<and>
   addSample 1 1 1 1 1 1 1 1 1 1 1 1 120 (feed [(demo_sample, 100)] (startRecording 0 (SentencePredictor_ctor static_mem))) =
     (False, feed [(demo_sample, 100)] (startRecording 0 (SentencePredictor_ctor static_mem))) \<and>
   isRecording (feed (butlast [(demo_sample, 100), (demo_sample, 120), (demo_sample, 150)])
                  (startRecording 0 (SentencePredictor_ctor static_mem))) \<and>
   unat (bufferIndex (startRecording 0 (SentencePredictor_ctor static_mem))) < SENTENCE_SAMPLES_PER_WINDOW \<and>
   unat (bufferIndex (feed [(demo_sample, 100), (demo_sample, 120), (demo_sample, 150)]
                  (startRecording 0 (SentencePredictor_ctor static_mem)))) = 2"
proof -
  let ?s = "startRecording 0 (SentencePredictor_ctor static_mem)"
  let ?s1 = "feed [(demo_sample, 100)] ?s"
  let ?cs = "[(demo_sample, 100), (demo_sample, 120), (demo_sample, 150 :: u32)]"
  have a: "(120 :: u32) - lastSampleTime ?s1 < SENTENCE_SAMPLE_INTERVAL_MS"
    by (simp add: feed_def ev)
  have b: "isRecording (feed (butlast ?cs) ?s)" by (simp add: feed_def ev)
  have c: "unat (bufferIndex ?s) < SENTENCE_SAMPLES_PER_WINDOW" by (simp add: ev)
  have l: "lastSampleTime ?s = 0" by (simp add: ev)
  have n: "spaced_count 0 (map snd ?cs) = 2" by (simp add: cfg)
  from addSample_spacing [of 120 ?s1 1 1 1 1 1 1 1 1 1 1 1 1 "[]"] a
  have 1: "addSample 1 1 1 1 1 1 1 1 1 1 1 1 120 ?s1 = (False, ?s1)" by blast
  from addSample_spacing [of 0 ?s 1 1 1 1 1 1 1 1 1 1 1 1 ?cs] b c
  have "unat (bufferIndex (feed ?cs ?s)) = unat (bufferIndex ?s) + spaced_count (lastSampleTime ?s) (map snd ?cs)"
    by blast
  then have 2: "unat (bufferIndex (feed ?cs ?s)) = 2" using n by (simp add: l) (simp add: ev)
  from a 1 b c 2 show ?thesis by blast
qed

subsection \<open>Completion\<close>

lemma sample_overwrite:
  "(y :: SensorSample)\<lparr>f1 := f1 x, f2 := f2 x, f3 := f3 x, f4 := f4 x, f5 := f5 x,
      gdp := gdp x, ax := ax x, ay := ay x, az := az x, gx := gx x, gy := gy x, gz := gz x\<rparr> = x"
  by (cases x, cases y) simp

lemma store_whole:
  "i < length buf \<Longrightarrow>
   store_sample buf i (f1 x) (f2 x) (f3 x) (f4 x) (f5 x) (gdp x)
     (ax x) (ay x) (az x) (gx x) (gy x) (gz x) = buf[i := x]"
  by (simp add: store_sample_def sample_overwrite)

lemma feed_idle: "\<not> isRecording s \<Longrightarrow> feed calls s = s \<and> feed_results calls s = replicate (length calls) False"
proof (induction calls)
  case Nil then show ?case by (simp add: feed_Nil)
next
  case (Cons c calls)
  obtain x now where c: "c = (x, now)" by (cases c)
  from Cons show ?case by (simp add: c feed_Cons addSample_def)
qed

lemma session_samples_length:
  "n < SENTENCE_SAMPLES_PER_WINDOW \<Longrightarrow>
   n + length (session_samples prev start n calls) \<le> SENTENCE_SAMPLES_PER_WINDOW"
proof (induction calls arbitrary: prev n)
  case Nil then show ?case by simp
next
  case (Cons c calls)
  obtain x now where c: "c = (x, now)" by (cases c)
  show ?case
  proof (cases "now - prev < SENTENCE_SAMPLE_INTERVAL_MS")
    case True
    with Cons show ?thesis by (simp add: c)
  next
    case False
    show ?thesis
    proof (cases "SENTENCE_SAMPLES_PER_WINDOW \<le> n + 1 \<or> SENTENCE_WINDOW_DURATION_MS \<le> now - start")
      case True
      with False Cons.prems show ?thesis by (simp add: c)
    next
      case False
      then have "n + 1 < SENTENCE_SAMPLES_PER_WINDOW" by simp
      from Cons.IH [OF this, of now] False \<open>\<not> now - prev < SENTENCE_SAMPLE_INTERVAL_MS\<close>
      show ?thesis by (simp add: c)
    qed
  qed
qed

lemma feed_session:
  assumes "isRecording s" and "unat (bufferIndex s) = n" and "n < SENTENCE_SAMPLES_PER_WINDOW"
    and "length (buffer s) = SENTENCE_SAMPLES_PER_WINDOW"
  shows "feed_results calls s =
           session_results (lastSampleTime s) (recordingStartTime s) n calls \<and>
         buffer (feed calls s) =
           take n (buffer s) @
           session_samples (lastSampleTime s) (recordingStartTime s) n calls @
           drop (n + length (session_samples (lastSampleTime s) (recordingStartTime s) n calls))
             (buffer s) \<and>
         unat (bufferIndex (feed calls s)) =
           n + length (session_samples (lastSampleTime s) (recordingStartTime s) n calls) \<and>
         recordingStartTime (feed calls s) = recordingStartTime s \<and>
         (isRecording (feed calls s) \<longleftrightarrow>
            True \<notin> set (session_results (lastSampleTime s) (recordingStartTime s) n calls)) \<and>
         (bufferFilled (feed calls s) \<longleftrightarrow> bufferFilled s \<or>
            True \<in> set (session_results (lastSampleTime s) (recordingStartTime s) n calls))"
  using assms
proof (induction calls arbitrary: s n)
  case Nil
  then show ?case by (simp add: feed_Nil)
next
  case (Cons c calls)
  obtain x now where c: "c = (x, now)" by (cases c)
  let ?r = "addSample (f1 x) (f2 x) (f3 x) (f4 x) (f5 x) (gdp x)
                     (ax x) (ay x) (az x) (gx x) (gy x) (gz x) now s"
  have n80: "n < 80" using Cons.prems(3) by (simp add: SENTENCE_SAMPLES_PER_WINDOW_def)
  have inc: "unat (bufferIndex s + 1) = n + 1"
    using unat_inc_small [of "bufferIndex s"] Cons.prems(2) n80 by simp
  have st: "store_sample (buffer s) n (f1 x) (f2 x) (f3 x) (f4 x) (f5 x) (gdp x)
     (ax x) (ay x) (az x) (gx x) (gy x) (gz x) = (buffer s)[n := x]"
    using Cons.prems(3,4) by (intro store_whole) simp
  have upd: "(buffer s)[n := x] = take n (buffer s) @ x # drop (Suc n) (buffer s)"
    using Cons.prems(3,4) by (simp add: upd_conv_take_nth_drop)
  show ?case
  proof (cases "now - lastSampleTime s < SENTENCE_SAMPLE_INTERVAL_MS")
    case True
    then have r: "?r = (False, s)" by (simp add: addSample_def)
    from Cons.IH [OF Cons.prems] True show ?thesis
      by (simp add: c feed_Cons r)
  next
    case False
    show ?thesis
    proof (cases "SENTENCE_SAMPLES_PER_WINDOW \<le> n + 1 \<or>
                  SENTENCE_WINDOW_DURATION_MS \<le> now - recordingStartTime s")
      case True
      let ?s' = "s\<lparr>buffer := (buffer s)[n := x], lastSampleTime := now,
                   bufferIndex := bufferIndex s + 1, bufferFilled := True, isRecording := False\<rparr>"
      have r: "?r = (True, ?s')"
        using Cons.prems(1,2) False True inc st by (auto simp: addSample_def Let_def)
      have idle: "feed calls ?s' = ?s' \<and> feed_results calls ?s' = replicate (length calls) False"
        by (rule feed_idle) simp
      from False True idle inc upd show ?thesis
        by (simp add: c feed_Cons r)
    next
      case no: False
      let ?s' = "s\<lparr>buffer := (buffer s)[n := x], lastSampleTime := now,
                   bufferIndex := bufferIndex s + 1\<rparr>"
      have r: "?r = (False, ?s')"
        using Cons.prems(1,2) False no inc st by (auto simp: addSample_def Let_def)
      from no have n1: "n + 1 < SENTENCE_SAMPLES_PER_WINDOW" by simp
      have IH: "feed_results calls ?s' =
           session_results (lastSampleTime ?s') (recordingStartTime ?s') (n + 1) calls \<and>
         buffer (feed calls ?s') =
           take (n + 1) (buffer ?s') @
           session_samples (lastSampleTime ?s') (recordingStartTime ?s') (n + 1) calls @
           drop (n + 1 + length (session_samples (lastSampleTime ?s') (recordingStartTime ?s') (n + 1) calls))
             (buffer ?s') \<and>
         unat (bufferIndex (feed calls ?s')) =
           n + 1 + length (session_samples (lastSampleTime ?s') (recordingStartTime ?s') (n + 1) calls) \<and>
         recordingStartTime (feed calls ?s') = recordingStartTime ?s' \<and>
         (isRecording (feed calls ?s') \<longleftrightarrow>
            True \<notin> set (session_results (lastSampleTime ?s') (recordingStartTime ?s') (n + 1) calls)) \<and>
         (bufferFilled (feed calls ?s') \<longleftrightarrow> bufferFilled ?s' \<or>
            True \<in> set (session_results (lastSampleTime ?s') (recordingStartTime ?s') (n + 1) calls))"
        using Cons.prems inc n1 by (intro Cons.IH) simp_all
      have tk: "take (n + 1) ((buffer s)[n := x]) = take n (buffer s) @ [x]"
        using Cons.prems(3,4) by (simp add: upd take_Suc_conv_app_nth)
      from IH False no tk show ?thesis
        by (simp add: c feed_Cons r)
    qed
  qed
qed

text \<open>
  C2, as the code has it. \<^verbatim>\<open>addSample\<close> reports completion exactly when the call is
  accepted (a recording is active and the sample interval has passed since the last
  accepted sample) and, with the sample of this call stored, the cursor has reached the
  capacity or the time since \<^verbatim>\<open>startRecording\<close> has reached the window duration; no
  call changes the start time. Over a whole session, from \<^verbatim>\<open>startRecording\<close> on any
  object: the calls report what \<open>session_results\<close> says; the buffer holds exactly the
  accepted samples, in order from index 0, and zeroes behind them; the cursor is their
  number; and the buffer is filled, and the recording over, exactly when a call has
  reported completion. So a window that ends on the duration is complete with a partly
  filled buffer, whose first entry is the sample of the completing call when none had
  been accepted before.
\<close>

theorem recording_session_completion:
  "(fst (addSample a1 a2 a3 a4 a5 g x y z u v w now s) \<longleftrightarrow>
      isRecording s \<and> \<not> now - lastSampleTime s < SENTENCE_SAMPLE_INTERVAL_MS \<and>
      (SENTENCE_SAMPLES_PER_WINDOW \<le> unat (bufferIndex s + 1) \<or>
       SENTENCE_WINDOW_DURATION_MS \<le> now - recordingStartTime s)) \<and>
   recordingStartTime (snd (addSample a1 a2 a3 a4 a5 g x y z u v w now s)) =
     recordingStartTime s \<and>
   feed_results calls (startRecording start s0) =
     session_results (lastSampleTime s0) start 0 calls \<and>
   buffer (feed calls (startRecording start s0)) =
     session_samples (lastSampleTime s0) start 0 calls @
     replicate (SENTENCE_SAMPLES_PER_WINDOW -
                length (session_samples (lastSampleTime s0) start 0 calls)) zero_sample \<and>
   unat (bufferIndex (feed calls (startRecording start s0))) =
     length (session_samples (lastSampleTime s0) start 0 calls) \<and>
   recordingStartTime (feed calls (startRecording start s0)) = start \<and>
   (bufferFilled (feed calls (startRecording start s0)) \<longleftrightarrow>
      True \<in> set (session_results (lastSampleTime s0) start 0 calls)) \<and>
   (isRecording (feed calls (startRecording start s0)) \<longleftrightarrow>
      True \<notin> set (session_results (lastSampleTime s0) start 0 calls))"
proof -
  let ?s = "startRecording start s0"
  have one: "fst (addSample a1 a2 a3 a4 a5 g x y z u v w now s) \<longleftrightarrow>
      isRecording s \<and> \<not> now - lastSampleTime s < SENTENCE_SAMPLE_INTERVAL_MS \<and>
      (SENTENCE_SAMPLES_PER_WINDOW \<le> unat (bufferIndex s + 1) \<or>
       SENTENCE_WINDOW_DURATION_MS \<le> now - recordingStartTime s)"
    by (simp add: addSample_def Let_def)
  have frame: "recordingStartTime (snd (addSample a1 a2 a3 a4 a5 g x y z u v w now s)) =
     recordingStartTime s"
    by (simp add: addSample_def Let_def)
  have s: "isRecording ?s" "unat (bufferIndex ?s) = 0" "0 < SENTENCE_SAMPLES_PER_WINDOW"
    "length (buffer ?s) = SENTENCE_SAMPLES_PER_WINDOW"
    "lastSampleTime ?s = lastSampleTime s0" "recordingStartTime ?s = start"
    "\<not> bufferFilled ?s" "buffer ?s = replicate SENTENCE_SAMPLES_PER_WINDOW zero_sample"
    by (simp_all add: startRecording_def SENTENCE_SAMPLES_PER_WINDOW_def)
  from feed_session [OF s(1-4), of calls] one frame show ?thesis
    by (simp add: s(5-8))
qed

theorem recording_session_completion_witness:
  "feed_results [(demo_sample, 4000)] (startRecording 0 (SentencePredictor_ctor static_mem)) =
     [True] \<and>
   buffer (feed [(demo_sample, 4000)] (startRecording 0 (SentencePredictor_ctor static_mem))) =
     demo_sample # replicate 79 zero_sample \<and>
   unat (bufferIndex (feed [(demo_sample, 4000)]
     (startRecording 0 (SentencePredictor_ctor static_mem)))) = 1 \<and>
   feed_results [(demo_sample, 3990), (zero_sample, 4010), (demo_sample, 4040)]
     (startRecording 0 (SentencePredictor_ctor static_mem)) = [False, False, True] \<and>
   buffer (feed [(demo_sample, 3990), (zero_sample, 4010), (demo_sample, 4040)]
     (startRecording 0 (SentencePredictor_ctor static_mem))) =
     demo_sample # demo_sample # replicate 78 zero_sample \<and>
   bufferFilled (feed [(demo_sample, 3990), (zero_sample, 4010), (demo_sample, 4040)]
     (startRecording 0 (SentencePredictor_ctor static_mem)))"
proof -
  have l: "lastSampleTime (SentencePredictor_ctor static_mem) = 0"
    by (simp add: SentencePredictor_ctor_def)
  note one = recording_session_completion
    [of 0 0 0 0 0 0 0 0 0 0 0 0 0 "SentencePredictor_ctor static_mem"
        "[(demo_sample, 4000)]" 0 "SentencePredictor_ctor static_mem"]
  note three = recording_session_completion
    [of 0 0 0 0 0 0 0 0 0 0 0 0 0 "SentencePredictor_ctor static_mem"
        "[(demo_sample, 3990), (zero_sample, 4010), (demo_sample, 4040)]" 0
        "SentencePredictor_ctor static_mem"]
  from one three show ?thesis by (simp add: l cfg)
qed

text \<open>
  C2 as stated fails: in a recording started at 0 ms with a sample accepted at 3990 ms, the
  call at 4010 ms comes after the window duration of 4000 ms has elapsed, but within
  50 ms of the last accepted sample; it is dropped and reports no completion.
\<close>

theorem addSample_late_drop_counterexample:
  "isRecording late_state \<and>
   SENTENCE_WINDOW_DURATION_MS \<le> 4010 - recordingStartTime late_state \<and>
   \<not> fst (addSample 0 0 0 0 0 0 0 0 0 0 0 0 4010 late_state)"
  by (simp add: late_state_def ev)

subsection \<open>The sample interval across recordings\<close>

text \<open>
  C10. Neither \<^verbatim>\<open>reset\<close> nor \<^verbatim>\<open>startRecording\<close> touches \<^verbatim>\<open>lastSampleTime\<close>, so the
  first \<^verbatim>\<open>addSample\<close> of a new recording is dropped (object unchanged, result "not
  complete") whenever it comes less than the sample interval after the last sample
  accepted before, in whatever recording; \<^verbatim>\<open>lastSampleTime\<close> is the time of that sample,
  since every accepted call stores its \<^verbatim>\<open>millis()\<close> there.
\<close>

theorem interval_enforced_across_windows:
  "lastSampleTime (reset s) = lastSampleTime s \<and>
   lastSampleTime (startRecording t0 s) = lastSampleTime s \<and>
   (now - lastSampleTime s < SENTENCE_SAMPLE_INTERVAL_MS \<longrightarrow>
      addSample a1 a2 a3 a4 a5 g x y z u v w now (startRecording t0 s) =
        (False, startRecording t0 s) \<and>
      addSample a1 a2 a3 a4 a5 g x y z u v w now (startRecording t0 (reset s)) =
        (False, startRecording t0 (reset s))) \<and>
   (isRecording s0 \<and> \<not> t - lastSampleTime s0 < SENTENCE_SAMPLE_INTERVAL_MS \<longrightarrow>
      lastSampleTime (snd (addSample b1 b2 b3 b4 b5 h x' y' z' u' v' w' t s0)) = t)"
  by (simp add: addSample_def reset_def startRecording_def Let_def)

theorem interval_enforced_across_windows_witness:
  "isRecording (startRecording 0 (SentencePredictor_ctor static_mem)) \<and>
   \<not> 3990 - lastSampleTime (startRecording 0 (SentencePredictor_ctor static_mem))
       < SENTENCE_SAMPLE_INTERVAL_MS \<and>
   lastSampleTime late_state = 3990 \<and>
   (4010 :: u32) - lastSampleTime late_state < SENTENCE_SAMPLE_INTERVAL_MS \<and>
   addSample 1 1 1 1 1 1 1 1 1 1 1 1 4010 (startRecording 4000 (reset late_state)) =
     (False, startRecording 4000 (reset late_state))"
proof -
  let ?s0 = "startRecording 0 (SentencePredictor_ctor static_mem)"
  have r: "isRecording ?s0" by (simp add: ev)
  have i: "\<not> 3990 - lastSampleTime ?s0 < SENTENCE_SAMPLE_INTERVAL_MS" by (simp add: ev)
  have e: "late_state = snd (addSample 1 0 0 0 0 0 0 0 1 0 0 0 3990 ?s0)"
    by (simp add: late_state_def run_def demo_sample_def)
  note inst = interval_enforced_across_windows
    [of late_state 4000 4010 1 1 1 1 1 1 1 1 1 1 1 1 ?s0 3990 1 0 0 0 0 0 0 0 1 0 0 0]
  from inst r i have l: "lastSampleTime late_state = 3990" by (simp add: e)
  then have h: "(4010 :: u32) - lastSampleTime late_state < SENTENCE_SAMPLE_INTERVAL_MS"
    by (simp add: cfg)
  from inst h have "addSample 1 1 1 1 1 1 1 1 1 1 1 1 4010 (startRecording 4000 (reset late_state)) =
     (False, startRecording 4000 (reset late_state))" by simp
  with r i l h show ?thesis by simp
qed

subsection \<open>predict on a buffer that is not filled\<close>

lemma snd_predict: "snd (predict m s) = s"
  by (simp add: predict_def)

text \<open>
  C8. When the buffer is not filled, \<^verbatim>\<open>predict\<close> returns label 0, writes 999999.0
  through the pointer and leaves the object (buffer, cursor, both flags) as it was.
\<close>

theorem predict_not_filled:
  "\<not> bufferFilled s \<Longrightarrow> predict m s = (Some (0, 999999), s)"
  by (simp add: predict_def)

theorem predict_not_filled_witness:
  "\<not> bufferFilled active_state \<and> predict demo_model active_state = (Some (0, 999999), active_state)"
proof -
  have "\<not> bufferFilled active_state" by (simp add: active_state_def ev)
  with predict_not_filled [of active_state demo_model] show ?thesis by simp
qed

subsection \<open>Invariants over all sequences of calls\<close>

lemma length_store_sample: "length (store_sample buf i a1 a2 a3 a4 a5 g x y z u v w) = length buf"
  by (simp add: store_sample_def)

lemma window_inv_ctor: "window_inv (SentencePredictor_ctor mem)"
  by (simp add: window_inv_def SentencePredictor_ctor_def)

lemma window_inv_startRecording: "window_inv (startRecording now s)"
  by (simp add: window_inv_def startRecording_def SENTENCE_SAMPLES_PER_WINDOW_def)

lemma window_inv_reset: "window_inv (reset s)"
  by (simp add: window_inv_def reset_def)

lemma window_inv_addSample:
  assumes "window_inv s"
  shows "window_inv (snd (addSample a1 a2 a3 a4 a5 g x y z u v w now s))"
proof (cases "isRecording s")
  case False
  with assms show ?thesis by (simp add: addSample_def)
next
  case True
  with assms have "unat (bufferIndex s) < 80"
    by (simp add: window_inv_def SENTENCE_SAMPLES_PER_WINDOW_def)
  then have "unat (bufferIndex s + 1) = unat (bufferIndex s) + 1"
    by (rule unat_inc_small)
  with assms True show ?thesis
    by (simp add: addSample_def Let_def window_inv_def length_store_sample
        SENTENCE_SAMPLES_PER_WINDOW_def)
qed

lemma window_inv_step: "window_inv s \<Longrightarrow> window_inv (step m c s)"
  by (cases c) (simp_all add: window_inv_startRecording window_inv_reset
      window_inv_addSample snd_predict)

lemma run_Nil: "run m [] s = s"
  by (simp add: run_def)
lemma run_Cons: "run m (c # cs) s = run m cs (step m c s)"
  by (simp add: run_def)

lemma window_inv_run: "window_inv s \<Longrightarrow> window_inv (run m cs s)"
  by (induction cs arbitrary: s) (simp_all add: run_Nil run_Cons window_inv_step)

lemma recording_cursor_in_range:
  "isRecording (run m cs (SentencePredictor_ctor mem)) \<Longrightarrow>
   unat (bufferIndex (run m cs (SentencePredictor_ctor mem))) <
   length (buffer (run m cs (SentencePredictor_ctor mem)))"
  using window_inv_run [OF window_inv_ctor, of m cs mem] by (simp add: window_inv_def)

lemma step_idle:
  "\<not> isRecording s \<Longrightarrow> \<not> is_start c \<Longrightarrow>
   \<not> isRecording (step m c s) \<and> buffer (step m c s) = buffer s"
  by (cases c) (simp_all add: addSample_def snd_predict reset_def)

lemma run_idle:
  "\<not> isRecording s \<Longrightarrow> \<forall>c\<in>set cs. \<not> is_start c \<Longrightarrow>
   \<not> isRecording (run m cs s) \<and> buffer (run m cs s) = buffer s"
proof (induction cs arbitrary: s)
  case Nil then show ?case by (simp add: run_Nil)
next
  case (Cons c cs)
  from Cons.prems have "\<not> isRecording (step m c s) \<and> buffer (step m c s) = buffer s"
    by (simp add: step_idle)
  moreover from this Cons.prems
  have "\<not> isRecording (run m cs (step m c s)) \<and> buffer (run m cs (step m c s)) = buffer (step m c s)"
    by (intro Cons.IH) simp_all
  ultimately show ?case by (simp add: run_Cons)
qed

text \<open>
  C7. After any sequence of \<^verbatim>\<open>startRecording\<close>, \<^verbatim>\<open>addSample\<close>, \<^verbatim>\<open>predict\<close> and
  \<^verbatim>\<open>reset\<close> calls on a freshly constructed object the cursor is at most
  \<^verbatim>\<open>SENTENCE_SAMPLES_PER_WINDOW\<close>; and when the filled flag is set, the recording flag is
  false and no further sequence of calls without a \<^verbatim>\<open>startRecording\<close> changes the
  buffer.
\<close>

theorem cursor_bounded_filled_frozen:
  "unat (bufferIndex (run m cs (SentencePredictor_ctor mem))) \<le> SENTENCE_SAMPLES_PER_WINDOW \<and>
   (bufferFilled (run m cs (SentencePredictor_ctor mem)) \<longrightarrow>
      \<not> isRecording (run m cs (SentencePredictor_ctor mem)) \<and>
      (\<forall>cs'. (\<forall>c\<in>set cs'. \<not> is_start c) \<longrightarrow>
         buffer (run m cs' (run m cs (SentencePredictor_ctor mem))) =
         buffer (run m cs (SentencePredictor_ctor mem))))"
proof -
  let ?s = "run m cs (SentencePredictor_ctor mem)"
  have inv: "window_inv ?s" by (rule window_inv_run [OF window_inv_ctor])
  then have 1: "unat (bufferIndex ?s) \<le> SENTENCE_SAMPLES_PER_WINDOW"
    and 2: "bufferFilled ?s \<longrightarrow> \<not> isRecording ?s"
    by (simp_all add: window_inv_def)
  have 3: "\<forall>cs'. (\<forall>c\<in>set cs'. \<not> is_start c) \<longrightarrow> buffer (run m cs' ?s) = buffer ?s"
    if "bufferFilled ?s"
    using 2 that run_idle [of ?s _ m] by blast
  from 1 2 3 show ?thesis by blast
qed

theorem cursor_bounded_filled_frozen_witness:
  "bufferFilled (run demo_model [StartRecording 0, AddSample demo_sample 4000] (SentencePredictor_ctor static_mem)) \<and>
   list_all (\<lambda>c. \<not> is_start c) [AddSample demo_sample 5000, Predict, Reset] \<and>
   unat (bufferIndex (run demo_model [StartRecording 0, AddSample demo_sample 4000] (SentencePredictor_ctor static_mem)))
      \<le> SENTENCE_SAMPLES_PER_WINDOW \<and>
   \<not> isRecording (run demo_model [StartRecording 0, AddSample demo_sample 4000] (SentencePredictor_ctor static_mem)) \<and>
   buffer (run demo_model [AddSample demo_sample 5000, Predict, Reset]
       (run demo_model [StartRecording 0, AddSample demo_sample 4000] (SentencePredictor_ctor static_mem))) =
   buffer (run demo_model [StartRecording 0, AddSample demo_sample 4000] (SentencePredictor_ctor static_mem))"
proof -
  have f: "bufferFilled (run demo_model [StartRecording 0, AddSample demo_sample 4000] (SentencePredictor_ctor static_mem))"
    by (simp add: ev)
  have n: "\<forall>c\<in>set [AddSample demo_sample 5000, Predict, Reset]. \<not> is_start c" by simp
  have n': "list_all (\<lambda>c. \<not> is_start c) [AddSample demo_sample 5000, Predict, Reset]" by simp
  from cursor_bounded_filled_frozen [of demo_model "[StartRecording 0, AddSample demo_sample 4000]" static_mem] f n n'
  show ?thesis by blast
qed

subsection \<open>Starting while a recording is in progress\<close>

text \<open>
  C5, as the code has it. The guard against a second start is in the controller:
  \<^verbatim>\<open>loop()\<close> calls \<^verbatim>\<open>startRecording\<close> only when \<^verbatim>\<open>recording()\<close> is false, so a
  button press during a recording leaves the predictor (cursor, storage, start time) as
  it is, and whenever the button handling changes the predictor, no recording was in
  progress and the change is \<^verbatim>\<open>startRecording\<close>. \<^verbatim>\<open>startRecording\<close> itself has no
  guard: in every state it sets the recording flag, takes the new start time, puts the
  cursor to 0, clears the filled flag and zeroes the storage.
\<close>

theorem loop_button_guards_restart:
  "(recording (sentencePredictor c) \<longrightarrow>
      sentencePredictor (loop_button buttonReading t1 t2 t3 c) = sentencePredictor c) \<and>
   (sentencePredictor (loop_button buttonReading t1 t2 t3 c) \<noteq> sentencePredictor c \<longrightarrow>
      \<not> recording (sentencePredictor c) \<and>
      sentencePredictor (loop_button buttonReading t1 t2 t3 c) =
        startRecording t3 (sentencePredictor c)) \<and>
   isRecording (startRecording now s) \<and>
   recordingStartTime (startRecording now s) = now \<and>
   bufferIndex (startRecording now s) = 0 \<and>
   \<not> bufferFilled (startRecording now s) \<and>
   buffer (startRecording now s) = replicate SENTENCE_SAMPLES_PER_WINDOW zero_sample"
  by (simp add: loop_button_def Let_def startRecording_def)

theorem loop_button_guards_restart_witness:
  "recording (sentencePredictor pressed_ctl) \<and>
   sentencePredictor (loop_button False 1000 1100 1100 pressed_ctl) = sentencePredictor pressed_ctl \<and>
   sentencePredictor (loop_button False 1000 1100 1100 idle_ctl) \<noteq> sentencePredictor idle_ctl \<and>
   sentencePredictor (loop_button False 1000 1100 1100 idle_ctl) =
     startRecording 1100 (sentencePredictor idle_ctl)"
proof -
  have r: "recording (sentencePredictor pressed_ctl)"
    by (simp add: pressed_ctl_def active_state_def ev)
  have "isRecording (sentencePredictor (loop_button False 1000 1100 1100 idle_ctl)) \<noteq>
        isRecording (sentencePredictor idle_ctl)"
    by (simp add: idle_ctl_def loop_button_def DEBOUNCE_DELAY_MS_def ev)
  then have n: "sentencePredictor (loop_button False 1000 1100 1100 idle_ctl) \<noteq> sentencePredictor idle_ctl"
    by metis
  from loop_button_guards_restart [of pressed_ctl False 1000 1100 1100] r
    loop_button_guards_restart [of idle_ctl False 1000 1100 1100] n
  show ?thesis by blast
qed

text \<open>
  C5 as stated fails: \<^verbatim>\<open>startRecording\<close> called at 500 ms on a recording that was
  started at 0 ms and holds one sample puts the cursor back to 0, replaces the start time
  and zeroes the storage.
\<close>

theorem startRecording_restart_counterexample:
  "recording active_state \<and>
   bufferIndex (startRecording 500 active_state) \<noteq> bufferIndex active_state \<and>
   recordingStartTime (startRecording 500 active_state) \<noteq> recordingStartTime active_state \<and>
   buffer (startRecording 500 active_state) \<noteq> buffer active_state"
proof -
  have "f1 (buffer (startRecording 500 active_state) ! 0) \<noteq> f1 (buffer active_state ! 0)"
    by (simp add: active_state_def ev zero_sample_def)
  then have "buffer (startRecording 500 active_state) \<noteq> buffer active_state" by metis
  moreover have "recording active_state \<and>
   bufferIndex (startRecording 500 active_state) \<noteq> bufferIndex active_state \<and>
   recordingStartTime (startRecording 500 active_state) \<noteq> recordingStartTime active_state"
    by (simp add: active_state_def ev)
  ultimately show ?thesis by simp
qed

section \<open>Properties of the KNN search\<close>

declare find_pos.simps [simp del]

declare shift_right.simps [simp del]

subsection \<open>The two loops of an insertion\<close>

lemma find_pos_step: "0 < p \<Longrightarrow> d < nd ! (p - 1) \<Longrightarrow> find_pos d nd p = find_pos d nd (p - 1)"
  using find_pos.simps [of d nd p] by simp

lemma find_pos_stop: "\<not> (0 < p \<and> d < nd ! (p - 1)) \<Longrightarrow> find_pos d nd p = p"
  using find_pos.simps [of d nd p] by auto

lemma find_pos_le: "find_pos d nd p \<le> p"
proof (induction d nd p rule: find_pos.induct)
  case (1 d nd p)
  show ?case
  proof (cases "p > 0 \<and> d < nd ! (p - 1)")
    case True
    with "1.IH" [OF True] show ?thesis by (simp add: find_pos_step)
  next
    case False
    then have "find_pos d nd p = p" by (rule find_pos_stop)
    then show ?thesis by simp
  qed
qed

lemma find_pos_above: "find_pos d nd p \<le> i \<Longrightarrow> i < p \<Longrightarrow> d < nd ! i"
proof (induction d nd p rule: find_pos.induct)
  case (1 d nd p)
  show ?case
  proof (cases "p > 0 \<and> d < nd ! (p - 1)")
    case True
    then have eq: "find_pos d nd p = find_pos d nd (p - 1)" by (simp add: find_pos_step)
    show ?thesis
    proof (cases "i = p - 1")
      case True with \<open>p > 0 \<and> d < nd ! (p - 1)\<close> show ?thesis by simp
    next
      case False
      with "1.prems" have "i < p - 1" by simp
      with "1.IH" [OF True] "1.prems" eq show ?thesis by simp
    qed
  next
    case False
    then have "find_pos d nd p = p" by (rule find_pos_stop)
    with "1.prems" show ?thesis by simp
  qed
qed

lemma find_pos_below: "0 < find_pos d nd p \<Longrightarrow> nd ! (find_pos d nd p - 1) \<le> d"
proof (induction d nd p rule: find_pos.induct)
  case (1 d nd p)
  show ?case
  proof (cases "p > 0 \<and> d < nd ! (p - 1)")
    case True
    then have eq: "find_pos d nd p = find_pos d nd (p - 1)" by (simp add: find_pos_step)
    with "1.IH" [OF True] "1.prems" show ?thesis by simp
  next
    case False
    then have "find_pos d nd p = p" by (rule find_pos_stop)
    with False "1.prems" show ?thesis by auto
  qed
qed

lemma find_pos_sorted_below:
  assumes "sorted nd" and "p < length nd" and "i < find_pos d nd p"
  shows "nd ! i \<le> d"
proof -
  let ?q = "find_pos d nd p"
  have q: "?q \<le> p" by (rule find_pos_le)
  from assms(3) have "0 < ?q" by simp
  then have "nd ! (?q - 1) \<le> d" by (rule find_pos_below)
  moreover have "nd ! i \<le> nd ! (?q - 1)"
    using assms q by (intro sorted_nth_mono) simp_all
  ultimately show ?thesis by simp
qed

lemma find_pos_strict:
  assumes "0 < K" and "d < nd ! (K - 1)"
  shows "d < nd ! find_pos d nd (K - 1)"
proof (cases "find_pos d nd (K - 1) = K - 1")
  case True with assms(2) show ?thesis by simp
next
  case False
  with find_pos_le [of d nd "K - 1"] have "find_pos d nd (K - 1) < K - 1" by simp
  then show ?thesis by (intro find_pos_above [of d nd "K - 1"]) simp_all
qed

lemma shift_right_step:
  "pos < j \<Longrightarrow> shift_right j pos (nd, nl) =
     shift_right (j - 1) pos (nd[j := nd ! (j - 1)], nl[j := nl ! (j - 1)])"
  using shift_right.simps [of j pos nd nl] by simp

lemma shift_right_stop: "\<not> pos < j \<Longrightarrow> shift_right j pos (nd, nl) = (nd, nl)"
  using shift_right.simps [of j pos nd nl] by simp

lemma shift_right_nth:
  "j < length nd \<Longrightarrow> j < length nl \<Longrightarrow>
   length (fst (shift_right j pos (nd, nl))) = length nd \<and>
   length (snd (shift_right j pos (nd, nl))) = length nl \<and>
   (\<forall>i. fst (shift_right j pos (nd, nl)) ! i = (if pos < i \<and> i \<le> j then nd ! (i - 1) else nd ! i)) \<and>
   (\<forall>i. snd (shift_right j pos (nd, nl)) ! i = (if pos < i \<and> i \<le> j then nl ! (i - 1) else nl ! i))"
proof (induction j arbitrary: nd nl)
  case 0
  then show ?case by (simp add: shift_right_stop)
next
  case (Suc j)
  show ?case
  proof (cases "pos < Suc j")
    case False
    then show ?thesis by (auto simp: shift_right_stop)
  next
    case True
    let ?nd = "nd[Suc j := nd ! j]" and ?nl = "nl[Suc j := nl ! j]"
    have eq: "shift_right (Suc j) pos (nd, nl) = shift_right j pos (?nd, ?nl)"
      using True by (simp add: shift_right_step)
    have IH: "length (fst (shift_right j pos (?nd, ?nl))) = length ?nd \<and>
   length (snd (shift_right j pos (?nd, ?nl))) = length ?nl \<and>
   (\<forall>i. fst (shift_right j pos (?nd, ?nl)) ! i = (if pos < i \<and> i \<le> j then ?nd ! (i - 1) else ?nd ! i)) \<and>
   (\<forall>i. snd (shift_right j pos (?nd, ?nl)) ! i = (if pos < i \<and> i \<le> j then ?nl ! (i - 1) else ?nl ! i))"
      using Suc.prems by (intro Suc.IH) simp_all
    have a: "(if pos < i \<and> i \<le> j then ?nd ! (i - 1) else ?nd ! i) =
             (if pos < i \<and> i \<le> Suc j then nd ! (i - 1) else nd ! i)" for i
      using Suc.prems True by (cases "i = Suc j") (auto simp: nth_list_update)
    have b: "(if pos < i \<and> i \<le> j then ?nl ! (i - 1) else ?nl ! i) =
             (if pos < i \<and> i \<le> Suc j then nl ! (i - 1) else nl ! i)" for i
      using Suc.prems True by (cases "i = Suc j") (auto simp: nth_list_update)
    show ?thesis unfolding eq using IH a b by simp
  qed
qed

subsection \<open>One visited row\<close>

lemma knn_visit_reject: "\<not> d < nd ! (K - 1) \<Longrightarrow> knn_visit K d l (nd, nl) = (nd, nl)"
  by (simp add: knn_visit_def)

lemma knn_visit_accept:
  "d < nd ! (K - 1) \<Longrightarrow>
   knn_visit K d l (nd, nl) =
     ((fst (shift_right (K - 1) (find_pos d nd (K - 1)) (nd, nl)))[find_pos d nd (K - 1) := d],
      (snd (shift_right (K - 1) (find_pos d nd (K - 1)) (nd, nl)))[find_pos d nd (K - 1) := l])"
  by (simp add: knn_visit_def Let_def split: prod.split)

lemma insert_at_eq:
  assumes "length r = length a" and "p < length a"
    and "\<And>i. i < length a \<Longrightarrow> r ! i = (if i = p then v else if p < i then a ! (i - 1) else a ! i)"
  shows "r = take p a @ v # drop p (butlast a)"
proof (rule nth_equalityI)
  show "length r = length (take p a @ v # drop p (butlast a))"
    using assms(1,2) by simp
next
  fix i assume "i < length r"
  with assms(1) have i: "i < length a" by simp
  show "r ! i = (take p a @ v # drop p (butlast a)) ! i"
    using assms(2) i by (simp add: assms(3) nth_append nth_butlast nth_Cons')
qed

lemma knn_visit_arrays:
  assumes "length nd = K" and "length nl = K" and "0 < K" and "d < nd ! (K - 1)"
  shows "fst (knn_visit K d l (nd, nl)) =
           take (find_pos d nd (K - 1)) nd @ d # drop (find_pos d nd (K - 1)) (butlast nd)"
    and "snd (knn_visit K d l (nd, nl)) =
           take (find_pos d nd (K - 1)) nl @ l # drop (find_pos d nd (K - 1)) (butlast nl)"
proof -
  let ?p = "find_pos d nd (K - 1)"
  have p: "?p < K" using find_pos_le [of d nd "K - 1"] assms(3) by simp
  have K1: "K - 1 < length nd" "K - 1 < length nl" using assms by simp_all
  note sh = shift_right_nth [OF K1, of ?p]
  have pl: "?p < length (fst (shift_right (K - 1) ?p (nd, nl)))"
           "?p < length (snd (shift_right (K - 1) ?p (nd, nl)))"
    using sh p assms(1,2) by simp_all
  show "fst (knn_visit K d l (nd, nl)) = take ?p nd @ d # drop ?p (butlast nd)"
  proof (rule insert_at_eq)
    show "length (fst (knn_visit K d l (nd, nl))) = length nd"
      using sh by (simp add: knn_visit_accept [OF assms(4)])
    show "?p < length nd" using p assms(1) by simp
    fix i assume "i < length nd"
    then have "i \<le> K - 1" using assms(1) by simp
    then show "fst (knn_visit K d l (nd, nl)) ! i =
        (if i = ?p then d else if ?p < i then nd ! (i - 1) else nd ! i)"
      using sh pl by (simp add: knn_visit_accept [OF assms(4)] nth_list_update)
  qed
  show "snd (knn_visit K d l (nd, nl)) = take ?p nl @ l # drop ?p (butlast nl)"
  proof (rule insert_at_eq)
    show "length (snd (knn_visit K d l (nd, nl))) = length nl"
      using sh by (simp add: knn_visit_accept [OF assms(4)])
    show "?p < length nl" using p assms(2) by simp
    fix i assume "i < length nl"
    then have "i \<le> K - 1" using assms(2) by simp
    then show "snd (knn_visit K d l (nd, nl)) ! i =
        (if i = ?p then l else if ?p < i then nl ! (i - 1) else nl ! i)"
      using sh pl by (simp add: knn_visit_accept [OF assms(4)] nth_list_update)
  qed
qed

lemma knn_visit_kept:
  assumes "length nd = K" and "length nl = K" and "0 < K" and "d < nd ! (K - 1)"
  shows "kept (knn_visit K d l (nd, nl)) =
           take (find_pos d nd (K - 1)) (kept (nd, nl)) @ (d, l) #
           drop (find_pos d nd (K - 1)) (butlast (kept (nd, nl)))"
proof -
  let ?p = "find_pos d nd (K - 1)"
  have p: "?p < K" using find_pos_le [of d nd "K - 1"] assms(3) by simp
  have "kept (knn_visit K d l (nd, nl)) =
        zip (take ?p nd @ d # drop ?p (butlast nd)) (take ?p nl @ l # drop ?p (butlast nl))"
    by (simp add: kept_def knn_visit_arrays [OF assms])
  also have "\<dots> = zip (take ?p nd) (take ?p nl) @ (d, l) # zip (drop ?p (butlast nd)) (drop ?p (butlast nl))"
    using assms(1,2) by simp
  also have "\<dots> = take ?p (zip nd nl) @ (d, l) # drop ?p (butlast (zip nd nl))"
    using assms(1,2) by (simp add: take_zip drop_zip butlast_conv_take)
  finally show ?thesis by (simp add: kept_def)
qed

lemma insert_after_at:
  "p \<le> length ps \<Longrightarrow> (\<And>i. i < p \<Longrightarrow> fst (ps ! i) \<le> d) \<Longrightarrow>
   (p < length ps \<Longrightarrow> d < fst (ps ! p)) \<Longrightarrow>
   insert_after (d, l) ps = take p ps @ (d, l) # drop p ps"
proof (induction ps arbitrary: p)
  case Nil then show ?case by simp
next
  case (Cons y ys)
  show ?case
  proof (cases p)
    case 0
    with Cons.prems(3) show ?thesis by simp
  next
    case (Suc q)
    with Cons.prems(2) [of 0] have y: "fst y \<le> d" by simp
    have "insert_after (d, l) ys = take q ys @ (d, l) # drop q ys"
    proof (rule Cons.IH)
      show "q \<le> length ys" using Cons.prems(1) Suc by simp
      show "fst (ys ! i) \<le> d" if "i < q" for i using Cons.prems(2) [of "Suc i"] that Suc by simp
      show "d < fst (ys ! q)" if "q < length ys" using Cons.prems(3) that Suc by simp
    qed
    with y Suc show ?thesis by simp
  qed
qed

lemma insert_after_all_le:
  "(\<And>y. y \<in> set ps \<Longrightarrow> fst y \<le> d) \<Longrightarrow> insert_after (d, l) ps = ps @ [(d, l)]"
  by (induction ps) simp_all

lemma knn_visit_take_insert:
  assumes "arrays_ok K arrays" and "0 < K"
  shows "kept (knn_visit K d l arrays) = take K (insert_after (d, l) (kept arrays))"
proof -
  obtain nd nl where a: "arrays = (nd, nl)" by (cases arrays)
  from assms(1) have len: "length nd = K" "length nl = K" and srt: "sorted nd"
    by (simp_all add: arrays_ok_def a)
  have lk: "length (kept (nd, nl)) = K" using len by (simp add: kept_def)
  have fk: "fst (kept (nd, nl) ! i) = nd ! i" if "i < K" for i
    using that len by (simp add: kept_def)
  show ?thesis
  proof (cases "d < nd ! (K - 1)")
    case True
    let ?p = "find_pos d nd (K - 1)"
    have p: "?p < K" using find_pos_le [of d nd "K - 1"] assms(2) by simp
    have "insert_after (d, l) (kept (nd, nl)) =
          take ?p (kept (nd, nl)) @ (d, l) # drop ?p (kept (nd, nl))"
    proof (rule insert_after_at)
      show "?p \<le> length (kept (nd, nl))" using p lk by simp
      show "fst (kept (nd, nl) ! i) \<le> d" if "i < ?p" for i
        using find_pos_sorted_below [OF srt _ that] that p len assms(2) by (simp add: fk)
      show "d < fst (kept (nd, nl) ! ?p)"
        using find_pos_strict [OF assms(2) True] p by (simp add: fk)
    qed
    then have "take K (insert_after (d, l) (kept (nd, nl))) =
          take ?p (kept (nd, nl)) @ (d, l) # drop ?p (butlast (kept (nd, nl)))"
      using p lk by (simp add: butlast_conv_take drop_take take_Cons' Suc_diff_Suc)
    with knn_visit_kept [OF len assms(2) True] show ?thesis by (simp add: a)
  next
    case False
    have "fst y \<le> d" if "y \<in> set (kept (nd, nl))" for y
    proof -
      from that obtain i where i: "i < K" "y = kept (nd, nl) ! i"
        using lk by (metis in_set_conv_nth)
      have "nd ! i \<le> nd ! (K - 1)" using srt i(1) len by (intro sorted_nth_mono) simp_all
      with False i show ?thesis by (simp add: fk)
    qed
    then have "insert_after (d, l) (kept (nd, nl)) = kept (nd, nl) @ [(d, l)]"
      by (rule insert_after_all_le)
    with lk False show ?thesis by (simp add: a knn_visit_reject)
  qed
qed

lemma set_insert_after: "set (insert_after x ps) = insert x (set ps)"
  by (induction ps) auto

lemma length_insert_after: "length (insert_after x ps) = Suc (length ps)"
  by (induction ps) auto

lemma mset_insert_after: "mset (insert_after x ps) = add_mset x (mset ps)"
  by (induction ps) auto

lemma sorted_insert_after:
  "sorted (map fst ps) \<Longrightarrow> sorted (map fst (insert_after x ps))"
  by (induction ps) (auto simp: set_insert_after)

lemma map_fst_kept: "length (fst arrays) = length (snd arrays) \<Longrightarrow> map fst (kept arrays) = fst arrays"
  by (simp add: kept_def)

lemma knn_visit_lengths:
  assumes "arrays_ok K arrays" and "0 < K"
  shows "length (fst (knn_visit K d l arrays)) = K \<and> length (snd (knn_visit K d l arrays)) = K"
proof -
  obtain nd nl where a: "arrays = (nd, nl)" by (cases arrays)
  from assms(1) have len: "length nd = K" "length nl = K"
    by (simp_all add: arrays_ok_def a)
  have p: "find_pos d nd (K - 1) < K" using find_pos_le [of d nd "K - 1"] assms(2) by simp
  show ?thesis
  proof (cases "d < nd ! (K - 1)")
    case True
    from knn_visit_arrays [OF len assms(2) True, of l] p len assms(2) show ?thesis
      by (simp add: a)
  next
    case False
    with len show ?thesis by (simp add: a knn_visit_reject)
  qed
qed

lemma knn_visit_arrays_ok:
  assumes "arrays_ok K arrays" and "0 < K"
  shows "arrays_ok K (knn_visit K d l arrays)"
proof -
  note len = knn_visit_lengths [OF assms, of d l]
  from assms(1) have "sorted (map fst (kept arrays))"
    by (simp add: map_fst_kept arrays_ok_def)
  then have "sorted (map fst (take K (insert_after (d, l) (kept arrays))))"
    by (simp add: sorted_insert_after flip: take_map)
  then have "sorted (map fst (kept (knn_visit K d l arrays)))"
    by (simp only: knn_visit_take_insert [OF assms])
  with len show ?thesis by (simp add: arrays_ok_def map_fst_kept)
qed

text \<open>
  C4. With K sorted kept distances, a row changes the kept list if and only if its
  distance is strictly below the K-th (worst) kept distance; a row at exactly that
  distance, or farther, leaves both arrays as they are. An accepted row lands at the
  position the reverse scan finds: every kept pair in front of it has a distance that is
  not larger, every kept pair from there on was strictly farther and has moved one place
  to the right, the former worst pair is gone, and the arrays are sorted and of length K
  again.
\<close>

theorem knn_visit_strict_insert:
  assumes "arrays_ok K (nd, nl)" and "0 < K"
  shows "(knn_visit K d l (nd, nl) \<noteq> (nd, nl) \<longleftrightarrow> d < nd ! (K - 1)) \<and>
         (d < nd ! (K - 1) \<longrightarrow>
            find_pos d nd (K - 1) < K \<and>
            (\<forall>i < find_pos d nd (K - 1). nd ! i \<le> d) \<and>
            (\<forall>i. find_pos d nd (K - 1) \<le> i \<and> i < K \<longrightarrow> d < nd ! i) \<and>
            kept (knn_visit K d l (nd, nl)) =
              take (find_pos d nd (K - 1)) (kept (nd, nl)) @ (d, l) #
              drop (find_pos d nd (K - 1)) (butlast (kept (nd, nl)))) \<and>
         arrays_ok K (knn_visit K d l (nd, nl))"
proof -
  let ?p = "find_pos d nd (K - 1)"
  from assms(1) have len: "length nd = K" "length nl = K" and srt: "sorted nd"
    by (simp_all add: arrays_ok_def)
  have p: "?p < K" using find_pos_le [of d nd "K - 1"] assms(2) by simp
  have below: "\<forall>i < ?p. nd ! i \<le> d"
    using find_pos_sorted_below [OF srt, of "K - 1" _ d] len assms(2) by simp
  have above: "\<forall>i. ?p \<le> i \<and> i < K \<longrightarrow> d < nd ! i" if "d < nd ! (K - 1)"
  proof (intro allI impI)
    fix i assume i: "?p \<le> i \<and> i < K"
    show "d < nd ! i"
    proof (cases "i = K - 1")
      case True with that show ?thesis by simp
    next
      case False
      with i have "i < K - 1" by arith
      with i show ?thesis by (intro find_pos_above [of d nd "K - 1"]) simp_all
    qed
  qed
  have changed: "knn_visit K d l (nd, nl) \<noteq> (nd, nl)" if "d < nd ! (K - 1)"
  proof
    assume "knn_visit K d l (nd, nl) = (nd, nl)"
    then have "fst (knn_visit K d l (nd, nl)) ! ?p = nd ! ?p" by simp
    moreover have "fst (knn_visit K d l (nd, nl)) ! ?p = d"
      using knn_visit_arrays(1) [OF len assms(2) that, of l] p len by (simp add: nth_append)
    ultimately show False using find_pos_strict [OF assms(2) that] by simp
  qed
  have 1: "knn_visit K d l (nd, nl) \<noteq> (nd, nl) \<longleftrightarrow> d < nd ! (K - 1)"
    using changed knn_visit_reject [of d nd K l nl] by blast
  have 2: "kept (knn_visit K d l (nd, nl)) =
              take ?p (kept (nd, nl)) @ (d, l) # drop ?p (butlast (kept (nd, nl)))"
    if "d < nd ! (K - 1)"
    using len assms(2) that by (rule knn_visit_kept)
  have 3: "arrays_ok K (knn_visit K d l (nd, nl))"
    using assms by (rule knn_visit_arrays_ok)
  from 1 2 3 p below above show ?thesis by blast
qed

theorem knn_visit_strict_insert_witness:
  "arrays_ok 2 ([1, 3], [0, 1]) \<and> (0::nat) < 2 \<and>
   (2::real) < [1, 3] ! (2 - 1) \<and>
   kept (knn_visit 2 2 5 ([1, 3], [0, 1])) = [(1, 0), (2, 5)] \<and>
   \<not> (3::real) < [1, 3] ! (2 - 1) \<and>
   knn_visit 2 3 5 ([1, 3], [0, 1]) = ([1, 3], [0, 1])"
proof -
  have a: "arrays_ok 2 ([1, 3], [0, 1])" by (simp add: arrays_ok_def)
  have k: "(0::nat) < 2" by simp
  have lt: "(2::real) < [1, 3] ! (2 - 1)" by simp
  have nlt: "\<not> (3::real) < [1, 3] ! (2 - 1)" by simp
  have fp: "find_pos 2 [1, 3] (2 - 1) = 1"
    by (simp add: find_pos.simps [of 2 "[1, 3]"])
  from knn_visit_strict_insert [OF a k, of 2 5] lt fp
  have "kept (knn_visit 2 2 5 ([1, 3], [0, 1])) = [(1, 0), (2, 5)]"
    by (simp add: kept_def)
  moreover from knn_visit_strict_insert [OF a k, of 3 5] nlt
  have "knn_visit 2 3 5 ([1, 3], [0, 1]) = ([1, 3], [0, 1])" by blast
  ultimately show ?thesis using a k lt nlt by blast
qed

subsection \<open>The whole search is a stable sort cut to K\<close>

lemma filter_insert_after:
  "sorted (map fst ps) \<Longrightarrow>
   filter (\<lambda>y. k = fst y) (insert_after x ps) =
   filter (\<lambda>y. k = fst y) ps @ (if k = fst x then [x] else [])"
proof (induction ps)
  case Nil show ?case by simp
next
  case (Cons y ys)
  show ?case
  proof (cases "fst y \<le> fst x")
    case True
    from Cons.prems have "sorted (map fst ys)" by simp
    then have "filter (\<lambda>y. k = fst y) (insert_after x ys) =
               filter (\<lambda>y. k = fst y) ys @ (if k = fst x then [x] else [])"
      by (rule Cons.IH)
    with True show ?thesis by auto
  next
    case False
    have "filter (\<lambda>z. k = fst z) (y # ys) = []" if "k = fst x"
      using that False Cons.prems by (auto simp: filter_empty_conv)
    with False show ?thesis by simp
  qed
qed

lemma fold_insert_after_sort:
  "sorted (map fst ps) \<Longrightarrow> fold insert_after rows ps = sort_key fst (ps @ rows)"
proof (induction rows arbitrary: ps)
  case Nil
  have "sort_key fst ps = ps"
    using Nil by (intro properties_for_sort_key) simp_all
  then show ?case by simp
next
  case (Cons r rows)
  have "fold insert_after (r # rows) ps = sort_key fst (insert_after r ps @ rows)"
    using Cons.prems by (simp add: Cons.IH sorted_insert_after)
  also have "\<dots> = sort_key fst (ps @ r # rows)"
  proof (rule sym, rule properties_for_sort_key)
    show "mset (sort_key fst (insert_after r ps @ rows)) = mset (ps @ r # rows)"
      by (simp add: mset_insert_after)
    show "sorted (map fst (sort_key fst (insert_after r ps @ rows)))" by simp
    fix k :: "real \<times> u8"
    show "filter (\<lambda>x. fst k = fst x) (sort_key fst (insert_after r ps @ rows)) =
          filter (\<lambda>x. fst k = fst x) (ps @ r # rows)"
      using sort_key_stable [of fst "fst k" "insert_after r ps @ rows"]
        filter_insert_after [OF Cons.prems, of "fst k" r]
      by (simp add: eq_commute [of "fst k"])
  qed
  finally show ?case .
qed

lemma take_insert_after_take:
  "take K (insert_after x (take K ps)) = take K (insert_after x ps)"
proof (induction ps arbitrary: K)
  case Nil show ?case by simp
next
  case (Cons y ys)
  show ?case
  proof (cases K)
    case 0 then show ?thesis by simp
  next
    case (Suc n)
    with Cons [of n] show ?thesis by (simp add: take_Cons')
  qed
qed

lemma take_fold_insert_after_take:
  "take K (fold insert_after rows (take K ps)) = take K (fold insert_after rows ps)"
proof (induction rows arbitrary: ps)
  case Nil show ?case by simp
next
  case (Cons r rows)
  have "take K (fold insert_after (r # rows) (take K ps)) =
        take K (fold insert_after rows (take K (insert_after r (take K ps))))"
    by (simp add: Cons.IH [of "insert_after r (take K ps)"])
  also have "\<dots> = take K (fold insert_after rows (take K (insert_after r ps)))"
    by (simp only: take_insert_after_take)
  also have "\<dots> = take K (fold insert_after (r # rows) ps)"
    by (simp add: Cons.IH [of "insert_after r ps"])
  finally show ?case .
qed

lemma fold_knn_visit:
  assumes "0 < K"
  shows "arrays_ok K arrays \<Longrightarrow>
     arrays_ok K (fold (\<lambda>r. knn_visit K (fst r) (snd r)) rows arrays) \<and>
     kept (fold (\<lambda>r. knn_visit K (fst r) (snd r)) rows arrays) =
       take K (fold insert_after rows (kept arrays))"
proof (induction rows arbitrary: arrays)
  case Nil
  then show ?case by (simp add: kept_def arrays_ok_def)
next
  case (Cons r rows)
  let ?a = "knn_visit K (fst r) (snd r) arrays"
  have ok: "arrays_ok K ?a" using Cons.prems assms by (rule knn_visit_arrays_ok)
  have "kept (fold (\<lambda>r. knn_visit K (fst r) (snd r)) rows ?a) =
        take K (fold insert_after rows (kept ?a))"
    using Cons.IH [OF ok] by simp
  also have "kept ?a = take K (insert_after r (kept arrays))"
    using knn_visit_take_insert [OF Cons.prems assms, of "fst r" "snd r"] by simp
  finally show ?case using Cons.IH [OF ok]
    by (simp add: take_fold_insert_after_take)
qed

lemma fold_map_filter:
  "fold (\<lambda>i a. case f i of None \<Rightarrow> a | Some r \<Rightarrow> g r a) xs a = fold g (List.map_filter f xs) a"
  by (induction xs arbitrary: a) (simp_all add: List.map_filter_simps split: option.split)

lemma knn_search_rows:
  "knn_search m query =
     fold (\<lambda>r. knn_visit (SENTENCE_KNN_N_NEIGHBORS m) (fst r) (snd r)) (reference_rows m query)
          (knn_init (SENTENCE_KNN_N_NEIGHBORS m))"
proof -
  have "(\<lambda>i arrays. case row_distance m query i of None \<Rightarrow> arrays
          | Some dst \<Rightarrow> knn_visit (SENTENCE_KNN_N_NEIGHBORS m) dst
                         (SENTENCE_TRAINING_LABELS m ! i) arrays) =
        (\<lambda>i arrays. case map_option (\<lambda>dst. (dst, SENTENCE_TRAINING_LABELS m ! i))
                               (row_distance m query i) of
            None \<Rightarrow> arrays
          | Some r \<Rightarrow> knn_visit (SENTENCE_KNN_N_NEIGHBORS m) (fst r) (snd r) arrays)"
    by (intro ext) (simp split: option.split)
  then show ?thesis
    by (simp only: knn_search_def reference_rows_def fold_map_filter)
qed

lemma arrays_ok_init: "arrays_ok K (knn_init K)"
  by (simp add: arrays_ok_def knn_init_def)

lemma kept_init: "kept (knn_init K) = replicate K (sentinel_dist, 0)"
  by (simp add: kept_def knn_init_def)

lemma knn_search_sorted_prefix:
  assumes "0 < SENTENCE_KNN_N_NEIGHBORS m"
  shows "kept (knn_search m query) =
         take (SENTENCE_KNN_N_NEIGHBORS m)
           (sort_key fst (replicate (SENTENCE_KNN_N_NEIGHBORS m) (sentinel_dist, 0) @ reference_rows m query))"
proof -
  let ?K = "SENTENCE_KNN_N_NEIGHBORS m"
  have "kept (knn_search m query) = take ?K (fold insert_after (reference_rows m query) (kept (knn_init ?K)))"
    using fold_knn_visit [OF assms arrays_ok_init] by (simp add: knn_search_rows)
  also have "fold insert_after (reference_rows m query) (kept (knn_init ?K)) =
             sort_key fst (kept (knn_init ?K) @ reference_rows m query)"
    by (rule fold_insert_after_sort) (simp add: kept_init)
  finally show ?thesis by (simp add: kept_init)
qed

lemma sort_key_split:
  "sort_key f xs = sort_key f (filter (\<lambda>x. f x < b) xs) @ sort_key f (filter (\<lambda>x. \<not> f x < b) xs)"
proof (rule properties_for_sort_key)
  show "mset (sort_key f (filter (\<lambda>x. f x < b) xs) @ sort_key f (filter (\<lambda>x. \<not> f x < b) xs)) = mset xs"
    by simp
  show "sorted (map f (sort_key f (filter (\<lambda>x. f x < b) xs) @ sort_key f (filter (\<lambda>x. \<not> f x < b) xs)))"
    by (auto simp: sorted_append)
  fix k
  show "filter (\<lambda>x. f k = f x) (sort_key f (filter (\<lambda>x. f x < b) xs) @ sort_key f (filter (\<lambda>x. \<not> f x < b) xs)) =
        filter (\<lambda>x. f k = f x) xs"
  proof -
    have "filter (\<lambda>x. f k = f x) (sort_key f ys) = filter (\<lambda>x. f k = f x) ys" for ys
      using sort_key_stable [of f "f k" ys] by (simp add: eq_commute [of "f k"])
    moreover have "filter (\<lambda>x. f x < b \<and> f k = f x) xs =
                   (if f k < b then filter (\<lambda>x. f k = f x) xs else [])"
      by (auto simp: filter_empty_conv intro: filter_cong)
    moreover have "filter (\<lambda>x. \<not> f x < b \<and> f k = f x) xs =
                   (if f k < b then [] else filter (\<lambda>x. f k = f x) xs)"
      by (auto simp: filter_empty_conv intro: filter_cong)
    ultimately show ?thesis by simp
  qed
qed

lemma take_sort_key_far:
  fixes f :: "'a \<Rightarrow> real"
  assumes "K \<le> length (filter (\<lambda>x. f x < b) xs)" and "\<And>y. y \<in> set ys \<Longrightarrow> \<not> f y < b"
  shows "take K (sort_key f (ys @ xs)) = take K (sort_key f xs)"
proof -
  have "filter (\<lambda>x. f x < b) ys = []" using assms(2) by (simp add: filter_empty_conv)
  then have "take K (sort_key f (ys @ xs)) = take K (sort_key f (filter (\<lambda>x. f x < b) xs))"
    using assms(1) by (subst sort_key_split [of f _ b]) simp
  also have "\<dots> = take K (sort_key f xs)"
    using assms(1) by (subst (2) sort_key_split [of f _ b]) simp
  finally show ?thesis .
qed

subsection \<open>Computed distances of the examples\<close>

lemma fl_small_ints:
  "fl 1 = Some 1" "fl (- 1) = Some (- 1)" "fl (- 3) = Some (- 3)" "fl (- 4) = Some (- 4)"
  "fl 5 = Some 5" "fl 9 = Some 9" "fl 16 = Some 16" "fl 25 = Some 25"
  "fl 4096 = Some 4096" "fl (- 4096) = Some (- 4096)"
  using fl_int [of 1] fl_int [of "- 1"] fl_int [of "- 3"] fl_int [of "- 4"] fl_int [of 5]
    fl_int [of 9] fl_int [of 16] fl_int [of 25] fl_int [of 4096] fl_int [of "- 4096"]
  by simp_all

lemma fl_16777216: "fl 16777216 = Some 16777216"
  using flv_eval [of 24 16777216] by (simp add: fl_def rne_def)

text \<open>The tie between 16777216 and 16777218 goes to the even significand.\<close>

lemma fl_16777217: "fl 16777217 = Some 16777216"
  using flv_eval [of 24 16777217] by (simp add: fl_def rne_def)

lemma fl_two_powers:
  "fl 1073741824 = Some 1073741824"
  "fl 1152921504606846976 = Some 1152921504606846976"
  using flv_eval [of 30 1073741824] flv_eval [of 60 1152921504606846976]
  by (simp_all add: fl_def rne_def)

lemma sqrt_points:
  "sqrt 25 = 5" "sqrt 16777216 = 4096" "sqrt 1152921504606846976 = 1073741824"
  by (rule real_sqrt_unique, simp, simp)+

lemmas fl_points = fl_zero fl_small_ints fl_16777216 fl_16777217 fl_two_powers sqrt_points
  fadd_def fsub_def fmul_def fsqrt_def

lemma rows3: "reference_rows three_row_model [0, 0] = [(4096, 1), (4096, 2), (5, 0)]"
  by (simp add: reference_rows_def row_distance_def three_row_model_def upt_rec
      List.map_filter_simps fl_points)

text \<open>
  C1, as the code has it. On tables and a query of the configured sizes, and when at least
  K reference rows have a computed distance to the query strictly below the initial
  distance 1e9 of the two arrays, the K kept (distance, label) pairs are the first K
  entries of the reference rows sorted by the distance the code computes for them in
  single precision, rows of equal computed distance in table order.
\<close>

theorem knn_search_keeps_nearest:
  assumes "tables_ok m query"
    and "SENTENCE_KNN_N_NEIGHBORS m \<le>
         length (filter (\<lambda>r. fst r < sentinel_dist) (reference_rows m query))"
  shows "kept (knn_search m query) =
         take (SENTENCE_KNN_N_NEIGHBORS m) (sort_key fst (reference_rows m query))"
proof -
  from assms(1) have K: "0 < SENTENCE_KNN_N_NEIGHBORS m" by (simp add: tables_ok_def)
  have "take (SENTENCE_KNN_N_NEIGHBORS m)
          (sort_key fst (replicate (SENTENCE_KNN_N_NEIGHBORS m) (sentinel_dist, 0::u8) @ reference_rows m query)) =
        take (SENTENCE_KNN_N_NEIGHBORS m) (sort_key fst (reference_rows m query))"
    using assms(2) by (rule take_sort_key_far) simp
  with knn_search_sorted_prefix [OF K, of query] show ?thesis by simp
qed

theorem knn_search_keeps_nearest_witness:
  "tables_ok three_row_model [0, 0] \<and>
   SENTENCE_KNN_N_NEIGHBORS three_row_model \<le>
     length (filter (\<lambda>r. fst r < sentinel_dist) (reference_rows three_row_model [0, 0])) \<and>
   row_distance three_row_model [0, 0] 0 = Some 4096 \<and>
   row_distance three_row_model [0, 0] 1 = Some 4096 \<and>
   row_distance three_row_model [0, 0] 2 = Some 5 \<and>
   kept (knn_search three_row_model [0, 0]) = [(5, 0), (4096, 1)]"
proof -
  have t: "tables_ok three_row_model [0, 0]"
    by (simp add: tables_ok_def three_row_model_def)
  have c: "SENTENCE_KNN_N_NEIGHBORS three_row_model \<le>
     length (filter (\<lambda>r. fst r < sentinel_dist) (reference_rows three_row_model [0, 0]))"
    by (simp add: rows3 sentinel_dist_def) (simp add: three_row_model_def)
  have d: "row_distance three_row_model [0, 0] 0 = Some 4096"
    "row_distance three_row_model [0, 0] 1 = Some 4096"
    "row_distance three_row_model [0, 0] 2 = Some 5"
    by (simp_all add: row_distance_def three_row_model_def upt_rec fl_points)
  have "take (SENTENCE_KNN_N_NEIGHBORS three_row_model)
          (sort_key fst (reference_rows three_row_model [0, 0])) = [(5, 0), (4096, 1)]"
    by (simp add: rows3) (simp add: three_row_model_def)
  with knn_search_keeps_nearest [OF t c] t c d show ?thesis by simp
qed

text \<open>
  C1 as stated fails. With one row \<open>[0]\<close> of label 1 and K = 1, the query \<open>[1073741824]\<close>
  is at the computed distance 1073741824 from the row, which is not below the initial
  1e9: the search keeps the initial pair (1e9, 0), not the row. And with K = 2 and a
  single row, the second kept pair is the initial one.
\<close>

theorem knn_search_sentinel_counterexample:
  "tables_ok demo_model [1073741824] \<and>
   reference_rows demo_model [1073741824] = [(1073741824, 1)] \<and>
   kept (knn_search demo_model [1073741824]) = [(1000000000, 0)] \<and>
   kept (knn_search demo_model [1073741824]) \<noteq>
     take (SENTENCE_KNN_N_NEIGHBORS demo_model)
       (sort_key fst (reference_rows demo_model [1073741824])) \<and>
   tables_ok small_model [0] \<and>
   reference_rows small_model [0] = [(0, 1)] \<and>
   kept (knn_search small_model [0]) = [(0, 1), (1000000000, 0)] \<and>
   kept (knn_search small_model [0]) \<noteq>
     take (SENTENCE_KNN_N_NEIGHBORS small_model) (sort_key fst (reference_rows small_model [0]))"
proof -
  have r: "reference_rows demo_model [1073741824] = [(1073741824, 1)]"
    by (simp add: reference_rows_def row_distance_def demo_model_def List.map_filter_simps
        fl_points)
  have k: "kept (knn_search demo_model [1073741824]) = [(1000000000, 0)]"
    using r by (simp add: knn_search_rows)
      (simp add: demo_model_def knn_init_def sentinel_dist_def knn_visit_def kept_def)
  have r': "reference_rows small_model [0] = [(0, 1)]"
    by (simp add: reference_rows_def row_distance_def small_model_def List.map_filter_simps
        fl_points)
  have f: "find_pos 0 [1000000000, 1000000000] (Suc 0) = 0"
    by (simp add: find_pos.simps [of 0 "[1000000000, 1000000000]"])
  have s: "shift_right (Suc 0) 0 ([1000000000, 1000000000], [0, 0]) =
           ([1000000000, 1000000000], [0, 0])"
    by (simp add: shift_right.simps [of _ 0 "[1000000000, 1000000000]" "[0, 0]"])
  have k': "kept (knn_search small_model [0]) = [(0, 1), (1000000000, 0)]"
    using r' by (simp add: knn_search_rows)
      (simp add: small_model_def knn_init_def sentinel_dist_def knn_visit_def kept_def f s
         numeral_2_eq_2)
  show ?thesis
    by (simp add: r k r' k')
      (simp add: demo_model_def small_model_def tables_ok_def)
qed

section \<open>Properties of the vote\<close>

lemma votes_for_le: "votes_for c ls \<le> length ls"
  by (simp add: votes_for_def)

lemma votes_for_snoc: "votes_for c (ls @ [l]) = votes_for c ls + (if unat l = c then 1 else 0)"
  by (simp add: votes_for_def)

lemma votes_for_out: "\<forall>l\<in>set ls. unat l \<noteq> c \<Longrightarrow> votes_for c ls = 0"
  by (simp add: votes_for_def filter_empty_conv)

lemma count_votes_Suc:
  "count_votes (Suc n) nl votes0 =
     (count_votes n nl votes0)[unat (nl ! n) := count_votes n nl votes0 ! unat (nl ! n) + 1]"
  by (simp add: count_votes_def)

lemma count_votes_0: "count_votes 0 nl votes0 = votes0"
  by (simp add: count_votes_def)

lemma unat_inc_u8: "unat (v :: u8) < 255 \<Longrightarrow> unat (v + 1) = unat v + 1"
  by (simp add: unat_word_ariths)

lemma count_votes_counts:
  assumes "length votes0 = C" and "\<forall>c<C. votes0 ! c = 0"
  shows "n \<le> length nl \<Longrightarrow> n \<le> 255 \<Longrightarrow> \<forall>l\<in>set (take n nl). unat l < C \<Longrightarrow>
     length (count_votes n nl votes0) = C \<and>
     (\<forall>c<C. unat (count_votes n nl votes0 ! c) = votes_for c (take n nl))"
proof (induction n)
  case 0
  with assms show ?case by (simp add: count_votes_0 votes_for_def)
next
  case (Suc n)
  let ?V = "count_votes n nl votes0"
  have tk: "take (Suc n) nl = take n nl @ [nl ! n]"
    using Suc.prems(1) by (simp add: take_Suc_conv_app_nth)
  have IH: "length ?V = C" "\<forall>c<C. unat (?V ! c) = votes_for c (take n nl)"
    using Suc.IH Suc.prems by (simp_all add: tk)
  have l: "unat (nl ! n) < C" using Suc.prems(3) by (simp add: tk)
  have "unat (?V ! unat (nl ! n)) \<le> n"
    using IH(2) l votes_for_le [of "unat (nl ! n)" "take n nl"] by simp
  with Suc.prems(2) have "unat (?V ! unat (nl ! n)) < 255" by simp
  then have inc: "unat (?V ! unat (nl ! n) + 1) = unat (?V ! unat (nl ! n)) + 1"
    by (rule unat_inc_u8)
  show ?case
    using IH l inc by (auto simp: count_votes_Suc tk votes_for_snoc nth_list_update)
qed

lemma find_best_Suc: "find_best (Suc n) votes = best_step votes n (find_best n votes)"
  by (simp add: find_best_def)

lemma find_best_0: "find_best 0 votes = (0, 0)"
  by (simp add: find_best_def)

lemma find_best_inv:
  assumes "\<forall>c<length votes. 256 \<le> c \<longrightarrow> votes ! c = 0"
  shows "n \<le> length votes \<Longrightarrow>
     (\<forall>c<n. votes ! c \<le> snd (find_best n votes)) \<and>
     ((snd (find_best n votes) = 0 \<and> fst (find_best n votes) = 0) \<or>
      (unat (fst (find_best n votes)) < n \<and>
       votes ! unat (fst (find_best n votes)) = snd (find_best n votes) \<and>
       0 < snd (find_best n votes) \<and>
       (\<forall>c<unat (fst (find_best n votes)). votes ! c < snd (find_best n votes))))"
proof (induction n)
  case 0
  show ?case by (simp add: find_best_0)
next
  case (Suc n)
  obtain b mx where st: "find_best n votes = (b, mx)" by (cases "find_best n votes")
  from Suc have IH1: "\<forall>c<n. votes ! c \<le> mx"
    and IH2: "(mx = 0 \<and> b = 0) \<or>
              (unat b < n \<and> votes ! unat b = mx \<and> 0 < mx \<and> (\<forall>c<unat b. votes ! c < mx))"
    by (simp_all add: st)
  show ?case
  proof (cases "votes ! n > mx")
    case True
    then have gt: "unat mx < unat (votes ! n)" by (simp add: word_less_nat_alt)
    then have "votes ! n \<noteq> 0" by auto
    with assms Suc.prems have "n < 256" by (metis Suc_le_lessD not_le_imp_less)
    then have un: "unat (of_nat n :: u8) = n" by (simp add: unat_of_nat)
    have new: "find_best (Suc n) votes = (of_nat n, votes ! n)"
      using True by (simp add: find_best_Suc st best_step_def)
    have "\<forall>c<Suc n. votes ! c \<le> votes ! n"
      using IH1 True by (metis less_Suc_eq less_imp_le order.trans order_refl)
    moreover have "\<forall>c<n. votes ! c < votes ! n"
      using IH1 True by (metis le_less_trans)
    moreover have "0 < votes ! n" using gt by (simp add: word_less_nat_alt)
    ultimately show ?thesis by (simp add: new un)
  next
    case False
    then have old: "find_best (Suc n) votes = (b, mx)"
      by (simp add: find_best_Suc st best_step_def)
    from False have "votes ! n \<le> mx" by simp
    with IH1 have "\<forall>c<Suc n. votes ! c \<le> mx" by (metis less_Suc_eq)
    moreover from IH2 have "(mx = 0 \<and> b = 0) \<or>
              (unat b < Suc n \<and> votes ! unat b = mx \<and> 0 < mx \<and> (\<forall>c<unat b. votes ! c < mx))"
      by auto
    ultimately show ?thesis by (simp add: old)
  qed
qed

text \<open>
  C3. For K neighbour labels (K at most 255, so that no \<^verbatim>\<open>uint8_t\<close> counter wraps), all
  of them indices of \<^verbatim>\<open>votes\<close>, no class has more votes than the returned one, and every
  class with as many votes as the returned one has an index that is not smaller: the
  vote returns the lowest class index among those with the maximal count.
\<close>

theorem majority_vote_lowest_max:
  assumes "length nearestLabels = K" and "K \<le> 255"
    and "\<forall>l\<in>set nearestLabels. unat l < C"
  shows "votes_for c nearestLabels \<le> votes_for (unat (majority_vote C K nearestLabels)) nearestLabels \<and>
         (votes_for c nearestLabels = votes_for (unat (majority_vote C K nearestLabels)) nearestLabels
            \<longrightarrow> unat (majority_vote C K nearestLabels) \<le> c)"
proof -
  let ?votes = "count_votes K nearestLabels (replicate C 0)"
  let ?V = "\<lambda>c. votes_for c nearestLabels"
  have cv: "length ?votes = C" "\<forall>c<C. unat (?votes ! c) = ?V c"
    using count_votes_counts [of "replicate C 0" C K nearestLabels] assms by simp_all
  have out: "?V c = 0" if "C \<le> c" for c
    using assms(3) that by (intro votes_for_out) auto
  have tail: "\<forall>c<length ?votes. 256 \<le> c \<longrightarrow> ?votes ! c = 0"
  proof (intro allI impI)
    fix c assume c: "c < length ?votes" "256 \<le> c"
    have "\<forall>l\<in>set nearestLabels. unat l \<noteq> c"
    proof
      fix l :: u8 
      have "unat l < 256" using unsigned_less [of l, where 'a = nat] by simp
      with c(2) show "unat l \<noteq> c" by simp
    qed
    then have "?V c = 0" by (rule votes_for_out)
    with cv c(1) have "unat (?votes ! c) = 0" by simp
    then show "?votes ! c = 0" by (simp add: unat_0_iff)
  qed
  obtain b mx where st: "find_best C ?votes = (b, mx)" by (cases "find_best C ?votes")
  have r: "majority_vote C K nearestLabels = b" by (simp add: majority_vote_def st)
  from find_best_inv [OF tail, of C] cv(1)
  have le: "\<forall>c<C. ?votes ! c \<le> mx"
    and alt: "(mx = 0 \<and> b = 0) \<or>
              (unat b < C \<and> ?votes ! unat b = mx \<and> 0 < mx \<and> (\<forall>c<unat b. ?votes ! c < mx))"
    by (simp_all add: st)
  from alt show ?thesis
  proof
    assume z: "mx = 0 \<and> b = 0"
    have "?V c = 0" for c
    proof (cases "c < C")
      case True
      with le z have "?votes ! c = 0" by simp
      with cv(2) True show ?thesis by (metis unat_0)
    next
      case False then show ?thesis by (simp add: out)
    qed
    with z show ?thesis by (simp add: r)
  next
    assume nz: "unat b < C \<and> ?votes ! unat b = mx \<and> 0 < mx \<and> (\<forall>c<unat b. ?votes ! c < mx)"
    then have Vb: "?V (unat b) = unat mx" using cv(2) by metis
    have pos: "0 < unat mx" using nz by (simp add: word_less_nat_alt)
    show ?thesis
    proof (cases "c < C")
      case True
      then have Vc: "?V c = unat (?votes ! c)" using cv(2) by simp
      have 1: "?V c \<le> ?V (unat b)"
        using le True by (simp add: Vc Vb word_le_nat_alt)
      have 2: "unat b \<le> c" if "?V c = ?V (unat b)"
      proof (rule ccontr)
        assume "\<not> unat b \<le> c"
        then have "c < unat b" by simp
        with nz have "?votes ! c < mx" by simp
        then have "unat (?votes ! c) < unat mx" by (simp add: word_less_nat_alt)
        with that show False by (simp add: Vc Vb)
      qed
      from 1 2 show ?thesis by (simp add: r)
    next
      case False
      then have "?V c = 0" by (simp add: out)
      with pos show ?thesis by (simp add: r Vb)
    qed
  qed
qed

theorem majority_vote_lowest_max_witness:
  "length [1, 2, 2, 1, 0 :: u8] = 5 \<and> (5::nat) \<le> 255 \<and>
   list_all (\<lambda>l. unat l < 3) [1, 2, 2, 1, 0 :: u8] \<and>
   majority_vote 3 5 [1, 2, 2, 1, 0] = 1 \<and>
   votes_for 2 [1, 2, 2, 1, 0] = votes_for 1 [1, 2, 2, 1, 0] \<and>
   votes_for 2 [1, 2, 2, 1, 0] \<le> votes_for (unat (majority_vote 3 5 [1, 2, 2, 1, 0])) [1, 2, 2, 1, 0] \<and>
   unat (majority_vote 3 5 [1, 2, 2, 1, 0]) \<le> 2"
proof -
  have a: "length [1, 2, 2, 1, 0 :: u8] = 5" by simp
  have b: "(5::nat) \<le> 255" by simp
  have c: "\<forall>l\<in>set [1, 2, 2, 1, 0 :: u8]. unat l < 3" by simp
  have m: "majority_vote 3 5 [1, 2, 2, 1, 0] = 1" by code_simp
  have t: "votes_for 2 [1, 2, 2, 1, 0] = votes_for 1 [1, 2, 2, 1, 0]"
    by (simp add: votes_for_def)
  have c': "list_all (\<lambda>l. unat l < 3) [1, 2, 2, 1, 0 :: u8]" by simp
  from majority_vote_lowest_max [OF a b c, of 2] a b c' m t show ?thesis by simp
qed

section \<open>The confidence\<close>

lemma flv_one: "flv 1 = 1"
  using flv_eval [of 0 1] by (simp add: rne_def)

lemma flv_above_max: "flv (1 + FLT_MAX) = FLT_MAX"
  using flv_eval [of 127 "1 + FLT_MAX"] by (simp add: FLT_MAX_def rne_def)

lemma flv_tiny: "flv (2 powi (- 128)) = 2 powi (- 128)"
  using flv_eval [of "- 128" "2 powi (- 128)"] by (simp add: rne_def)

text \<open>The sum \<^verbatim>\<open>1.0f + meanDist\<close> is finite and at least 1.\<close>

lemma fadd_one:
  assumes "0 \<le> d" and "d \<le> FLT_MAX"
  shows "fadd 1 d = Some (flv (1 + d))" and "1 \<le> flv (1 + d)" and "flv (1 + d) \<le> FLT_MAX"
proof -
  have "flv 1 \<le> flv (1 + d)" using assms(1) by (intro flv_mono) simp_all
  then show lo: "1 \<le> flv (1 + d)" by (simp add: flv_one)
  have "flv (1 + d) \<le> flv (1 + FLT_MAX)" using assms by (intro flv_mono) simp_all
  then show hi: "flv (1 + d) \<le> FLT_MAX" by (simp add: flv_above_max)
  have "FLT_MAX < 2 powi 128" by (simp add: FLT_MAX_def)
  with lo hi have "\<bar>flv (1 + d)\<bar> < 2 powi 128" by simp
  then show "fadd 1 d = Some (flv (1 + d))" by (simp add: fadd_def fl_def)
qed

text \<open>The quotient \<^verbatim>\<open>1.0f / s\<close> for a finite \<open>s\<close> that is at least 1.\<close>

lemma fdiv_one:
  assumes "1 \<le> s" and "s \<le> FLT_MAX"
  shows "fdiv 1 s = Some (flv (1 / s))" and "0 < flv (1 / s)" and "flv (1 / s) \<le> 1"
proof -
  from assms(1) have s: "0 < s" by simp
  have "1 / s \<le> 1" using assms(1) by simp
  then have "flv (1 / s) \<le> flv 1" using s by (intro flv_mono) simp_all
  then show hi: "flv (1 / s) \<le> 1" by (simp add: flv_one)
  have "s \<le> 2 powi 128" using assms(2) by (simp add: FLT_MAX_def)
  then have "1 / 2 powi 128 \<le> 1 / s" using s by (intro divide_left_mono) simp_all
  moreover have "(2::real) powi (- 128) = 1 / 2 powi 128"
    by (simp only: power_int_minus inverse_eq_divide)
  ultimately have "2 powi (- 128) \<le> 1 / s" by (simp only:)
  then have "flv (2 powi (- 128)) \<le> flv (1 / s)" by (intro flv_mono) simp_all
  then have "2 powi (- 128) \<le> flv (1 / s)" by (simp only: flv_tiny)
  moreover have "0 < (2::real) powi (- 128)" by simp
  ultimately show lo: "0 < flv (1 / s)" by linarith
  from lo hi have "\<bar>flv (1 / s)\<bar> < 2 powi 128" by simp
  with s show "fdiv 1 s = Some (flv (1 / s))" by (simp add: fdiv_def fl_def)
qed

lemma confidence_value:
  assumes "0 \<le> d" and "d \<le> FLT_MAX"
  shows "confidence d = Some (flv (1 / flv (1 + d)))"
  using fadd_one [OF assms] fdiv_one(1) [of "flv (1 + d)"] by (simp add: confidence_def)

text \<open>
  C9, as the code has it. The confidence is computed in single precision as
  \<^verbatim>\<open>1.0f / (1.0f + meanDist)\<close>. For every finite mean distance that is not negative it
  is a finite value in the interval (0, 1]; it does not increase when the mean distance
  increases, though rounding can make it stay the same; and at mean distance 0 it is
  exactly 1.
\<close>

theorem confidence_range_nonincreasing:
  "(0 \<le> d \<and> d \<le> FLT_MAX \<longrightarrow> (\<exists>c. confidence d = Some c \<and> 0 < c \<and> c \<le> 1)) \<and>
   (0 \<le> d \<and> d \<le> e \<and> e \<le> FLT_MAX \<longrightarrow>
      (\<exists>c c'. confidence d = Some c \<and> confidence e = Some c' \<and> c' \<le> c)) \<and>
   confidence 0 = Some 1"
proof -
  have range: "\<exists>c. confidence d = Some c \<and> 0 < c \<and> c \<le> 1" if "0 \<le> d" "d \<le> FLT_MAX"
    using confidence_value [OF that] fadd_one(2,3) [OF that] fdiv_one(2,3) [of "flv (1 + d)"]
    by simp
  have mono: "\<exists>c c'. confidence d = Some c \<and> confidence e = Some c' \<and> c' \<le> c"
    if "0 \<le> d" "d \<le> e" "e \<le> FLT_MAX"
  proof -
    from that have d: "0 \<le> d" "d \<le> FLT_MAX" and e: "0 \<le> e" "e \<le> FLT_MAX" by simp_all
    have "flv (1 + d) \<le> flv (1 + e)" using that by (intro flv_mono) simp_all
    moreover have "0 < flv (1 + d)" using fadd_one(2) [OF d] by simp
    ultimately have "1 / flv (1 + e) \<le> 1 / flv (1 + d)" by (simp add: frac_le)
    moreover have "0 < 1 / flv (1 + e)" using fadd_one(2) [OF e] by simp
    ultimately have "flv (1 / flv (1 + e)) \<le> flv (1 / flv (1 + d))" by (intro flv_mono)
    then show ?thesis by (simp add: confidence_value [OF d] confidence_value [OF e])
  qed
  have zero: "confidence 0 = Some 1"
    using confidence_value [of 0] by (simp add: flv_one FLT_MAX_def)
  from range mono zero show ?thesis by blast
qed

theorem confidence_range_nonincreasing_witness:
  "(0::real) \<le> 1 \<and> (1::real) \<le> 3 \<and> 3 \<le> FLT_MAX \<and>
   confidence 1 = Some (1 / 2) \<and> confidence 3 = Some (1 / 4) \<and>
   (\<exists>c c'. confidence 1 = Some c \<and> confidence 3 = Some c' \<and> c' \<le> c) \<and>
   (\<exists>c. confidence 3 = Some c \<and> 0 < c \<and> c \<le> 1)"
proof -
  have b: "(0::real) \<le> 1" "(1::real) \<le> 3" "3 \<le> FLT_MAX" by (simp_all add: FLT_MAX_def)
  have p: "fl 2 = Some 2" "fl 4 = Some 4" using fl_int [of 2] fl_int [of 4] by simp_all
  have h: "fl (1 / 2) = Some (1 / 2)" using flv_eval [of "- 1" "1 / 2"] by (simp add: fl_def rne_def)
  have q: "fl (1 / 4) = Some (1 / 4)" using flv_eval [of "- 2" "1 / 4"] by (simp add: fl_def rne_def)
  have c1: "confidence 1 = Some (1 / 2)" by (simp add: confidence_def fadd_def fdiv_def p h)
  have c3: "confidence 3 = Some (1 / 4)" by (simp add: confidence_def fadd_def fdiv_def p q)
  from confidence_range_nonincreasing [of 1 3] b
  have m: "\<exists>c c'. confidence 1 = Some c \<and> confidence 3 = Some c' \<and> c' \<le> c" by simp
  from confidence_range_nonincreasing [of 3 3] b
  have r: "\<exists>c. confidence 3 = Some c \<and> 0 < c \<and> c \<le> 1" by simp
  from b c1 c3 m r show ?thesis by blast
qed

text \<open>
  C9 as stated fails: the mean distance \<open>1 / 16777216\<close> is a positive value of the
  format, but \<^verbatim>\<open>1.0f + meanDist\<close> rounds to 1, so the confidence is exactly 1, as it is
  at mean distance 0: the confidence is not strictly decreasing.
\<close>

theorem confidence_rounding_counterexample:
  "(0::real) < 1 / 16777216 \<and>
   fl (1 / 16777216) = Some (1 / 16777216) \<and>
   confidence (1 / 16777216) = Some 1 \<and>
   confidence 0 = Some 1"
proof -
  have a: "fl (1 / 16777216) = Some (1 / 16777216)"
    using flv_eval [of "- 24" "1 / 16777216"] by (simp add: fl_def rne_def)
  have b: "fl (1 + 1 / 16777216) = Some 1"
    using flv_eval [of 0 "1 + 1 / 16777216"] by (simp add: fl_def rne_def)
  have o: "fl 1 = Some 1" using fl_int [of 1] by simp
  have c: "confidence (1 / 16777216) = Some 1"
    using b o by (simp add: confidence_def fadd_def fdiv_def)
  have z: "confidence 0 = Some 1" using o by (simp add: confidence_def fadd_def fdiv_def)
  from a c z show ?thesis by simp
qed

end
